theory Spec2Isabelle
  imports Main "HOL-Library.AList"
begin

section \<open>Characters and strings\<close>

text \<open>
  Strings are lists of 8-bit characters, read as the code points 0 to 255 of a Python
  \<^verbatim>\<open>str\<close>. The character classes are what Python's \<^verbatim>\<open>re\<close> module and \<^verbatim>\<open>str.strip\<close> use
  on \<^verbatim>\<open>str\<close> values in that range: \<^verbatim>\<open>\d\<close> is \<^verbatim>\<open>0-9\<close>; \<^verbatim>\<open>\s\<close> is the code points 9 to 13,
  28 to 32, 0x85 (next line) and 0xA0 (no-break space).
\<close>

definition is_digit :: "char \<Rightarrow> bool" where
  "is_digit c = (c \<in> set ''0123456789'')"

definition is_space :: "char \<Rightarrow> bool" where
  "is_space c = (c \<in> set [CHR 0x09, CHR 0x0A, CHR 0x0B, CHR 0x0C, CHR 0x0D,
                            CHR 0x1C, CHR 0x1D, CHR 0x1E, CHR 0x1F, CHR '' '',
                            CHR 0x85, CHR 0xA0])"

definition upper_chars :: string where
  "upper_chars = ''ABCDEFGHIJKLMNOPQRSTUVWXYZ''"

definition lower_chars :: string where
  "lower_chars = ''abcdefghijklmnopqrstuvwxyz''"

definition is_upper :: "char \<Rightarrow> bool" where
  "is_upper c = (c \<in> set upper_chars)"

definition is_alpha :: "char \<Rightarrow> bool" where
  "is_alpha c = (c \<in> set upper_chars \<or> c \<in> set lower_chars)"

definition lower_char :: "char \<Rightarrow> char" where
  "lower_char c = (case map_of (zip upper_chars lower_chars) c of Some l \<Rightarrow> l | None \<Rightarrow> c)"

definition digit_val :: "char \<Rightarrow> nat" where
  "digit_val c = of_char c - 48"

text \<open>\<^verbatim>\<open>int(s)\<close> on a string of decimal digits.\<close>

definition digits_val :: "string \<Rightarrow> nat" where
  "digits_val s = foldl (\<lambda>n c. 10 * n + digit_val c) 0 s"

text \<open>\<^verbatim>\<open>s.strip()\<close>: leading and trailing whitespace removed.\<close>

definition strip :: "string \<Rightarrow> string" where
  "strip s = rev (dropWhile is_space (rev (dropWhile is_space s)))"

text \<open>
  Splitting at every character that satisfies \<open>P\<close>: always at least one piece, empty
  pieces kept. \<^verbatim>\<open>s.split('\n')\<close> is \<open>split_on\<close> of the newline.
\<close>

fun split_where :: "(char \<Rightarrow> bool) \<Rightarrow> string \<Rightarrow> string list" where
  "split_where P [] = [[]]"
| "split_where P (c # s) =
     (if P c then [] # split_where P s
      else (case split_where P s of [] \<Rightarrow> [[c]] | w # ws \<Rightarrow> (c # w) # ws))"

definition split_on :: "char \<Rightarrow> string \<Rightarrow> string list" where
  "split_on sep s = split_where (\<lambda>c. c = sep) s"

text \<open>The maximal runs of non-whitespace characters (\<^verbatim>\<open>re.findall(r'\S+', s)\<close>).\<close>

definition ws_tokens :: "string \<Rightarrow> string list" where
  "ws_tokens s = filter (\<lambda>w. w \<noteq> []) (split_where is_space s)"

text \<open>\<^verbatim>\<open>s.replace(a, b)\<close> for one-character \<open>a\<close> and \<open>b\<close>.\<close>

definition replace_char :: "char \<Rightarrow> char \<Rightarrow> string \<Rightarrow> string" where
  "replace_char a b s = map (\<lambda>c. if c = a then b else c) s"

section \<open>Regular expressions with Python's backtracking order\<close>

text \<open>
  The fragment of \<^verbatim>\<open>re\<close> syntax the scraper uses: literal characters, character classes,
  concatenation, alternation, greedy \<^verbatim>\<open>?\<close>, \<^verbatim>\<open>*\<close>, \<^verbatim>\<open>+\<close>, \<^verbatim>\<open>{n}\<close> and \<^verbatim>\<open>$\<close>.
\<close>

datatype rx = Chr char | Cls "char \<Rightarrow> bool" | Cat rx rx | Alt rx rx | Opt rx | Star rx | Eos | Eps

text \<open>
  \<open>rmatch r s\<close> lists, in the order a backtracking matcher tries them, the rests of \<open>s\<close>
  left after each way \<open>r\<close> can match a prefix of \<open>s\<close>. Greedy operators put the longer
  match first. \<^verbatim>\<open>$\<close> (without MULTILINE) matches at the end of the string and just
  before a newline that ends the string.
\<close>

function (sequential) rmatch :: "rx \<Rightarrow> string \<Rightarrow> string list" where
  "rmatch (Chr c) s = (case s of [] \<Rightarrow> [] | x # xs \<Rightarrow> if x = c then [xs] else [])"
| "rmatch (Cls P) s = (case s of [] \<Rightarrow> [] | x # xs \<Rightarrow> if P x then [xs] else [])"
| "rmatch (Cat a b) s = concat (map (rmatch b) (rmatch a s))"
| "rmatch (Alt a b) s = rmatch a s @ rmatch b s"
| "rmatch (Opt a) s = rmatch a s @ [s]"
| "rmatch (Star a) s =
     concat (map (\<lambda>s'. if length s' < length s then rmatch (Star a) s' else []) (rmatch a s)) @ [s]"
| "rmatch Eos s = (if s = [] \<or> s = [CHR 0x0A] then [s] else [])"
| "rmatch Eps s = [s]"
  by pat_completeness auto
termination
  by (relation "measures [\<lambda>(r, s). size r, \<lambda>(r, s). length s]") auto

definition Plus :: "rx \<Rightarrow> rx" where
  "Plus r = Cat r (Star r)"

definition Lit :: "string \<Rightarrow> rx" where
  "Lit s = foldr (\<lambda>c r. Cat (Chr c) r) s Eps"

fun Rep :: "nat \<Rightarrow> rx \<Rightarrow> rx" where
  "Rep 0 r = Eps"
| "Rep (Suc n) r = Cat r (Rep n r)"

text \<open>
  Every pattern of the scraper has at most one capturing group, so a pattern is the part
  before the group, the group and the part after it. \<open>re_match_at p s\<close> lists the text of
  the group for every way \<open>p\<close> matches at the start of \<open>s\<close>, in backtracking order;
  \<open>re_search\<close> is \<^verbatim>\<open>re.search(p, s)\<close> followed by \<^verbatim>\<open>.group(1)\<close>: the first match
  at the leftmost position that has one.
\<close>

datatype pattern = Pattern rx rx rx

fun re_match_at :: "pattern \<Rightarrow> string \<Rightarrow> string list" where
  "re_match_at (Pattern a g b) s =
     concat (map (\<lambda>s1. concat (map (\<lambda>s2. map (\<lambda>s3. take (length s1 - length s2) s1) (rmatch b s2))
                                      (rmatch g s1)))
                 (rmatch a s))"

fun re_search :: "pattern \<Rightarrow> string \<Rightarrow> string option" where
  "re_search p [] = (case re_match_at p [] of [] \<Rightarrow> None | g # _ \<Rightarrow> Some g)"
| "re_search p (c # s) = (case re_match_at p (c # s) of [] \<Rightarrow> re_search p s | g # _ \<Rightarrow> Some g)"

definition Seq :: "rx list \<Rightarrow> rx" where
  "Seq rs = foldr Cat rs Eps"

text \<open>\<^verbatim>\<open>re.search(r, s)\<close> used as a truth value, for a pattern without a group.\<close>

definition re_find :: "rx \<Rightarrow> string \<Rightarrow> bool" where
  "re_find r s = (re_search (Pattern r Eps Eps) s \<noteq> None)"

section \<open>Dates: \<^verbatim>\<open>datetime.strptime(s, '%d-%b-%Y')\<close>\<close>

datatype py_error = ValueError

record datetime =
  year :: nat
  month :: nat
  day :: nat

definition month_abbrs :: "string list" where
  "month_abbrs = [''jan'', ''feb'', ''mar'', ''apr'', ''may'', ''jun'',
                  ''jul'', ''aug'', ''sep'', ''oct'', ''nov'', ''dec'']"

fun index_of :: "'a \<Rightarrow> 'a list \<Rightarrow> nat option" where
  "index_of x [] = None"
| "index_of x (y # ys) = (if x = y then Some 0 else map_option Suc (index_of x ys))"

definition is_leap :: "nat \<Rightarrow> bool" where
  "is_leap y = (y mod 4 = 0 \<and> (y mod 100 \<noteq> 0 \<or> y mod 400 = 0))"

definition days_in_month :: "nat \<Rightarrow> nat \<Rightarrow> nat" where
  "days_in_month y m =
     (if m = 2 then (if is_leap y then 29 else 28)
      else if m = 4 \<or> m = 6 \<or> m = 9 \<or> m = 11 then 30 else 31)"

text \<open>
  The \<^verbatim>\<open>%d\<close> directive is the alternation \<^verbatim>\<open>3[0-1]|[1-2]\d|0[1-9]|[1-9]| [1-9]\<close>,
  tried in this order. The character after it must be the dash of the format, so at
  most one alternative can lead to a match.
\<close>

definition is_digit19 :: "char \<Rightarrow> bool" where
  "is_digit19 c = (c \<in> set ''123456789'')"

fun strptime_day :: "string \<Rightarrow> (nat \<times> string) option" where
  "strptime_day [] = None"
| "strptime_day [c] = (if is_digit19 c then Some (digit_val c, []) else None)"
| "strptime_day (c1 # c2 # s) =
     (if c1 = CHR ''3'' \<and> (c2 = CHR ''0'' \<or> c2 = CHR ''1'') then Some (30 + digit_val c2, s)
      else if (c1 = CHR ''1'' \<or> c1 = CHR ''2'') \<and> is_digit c2 then Some (10 * digit_val c1 + digit_val c2, s)
      else if c1 = CHR ''0'' \<and> is_digit19 c2 then Some (digit_val c2, s)
      else if is_digit19 c1 then Some (digit_val c1, c2 # s)
      else if c1 = CHR '' '' \<and> is_digit19 c2 then Some (digit_val c2, s)
      else None)"

text \<open>
  \<^verbatim>\<open>%b\<close> is one of the month abbreviations of the C locale, matched ignoring case;
  \<^verbatim>\<open>%Y\<close> is exactly four digits; text left over after the year, a year 0 and a
  day the month does not have all raise \<^verbatim>\<open>ValueError\<close>.
\<close>

definition strptime :: "string \<Rightarrow> py_error + datetime" where
  "strptime s =
     (case strptime_day s of
        None \<Rightarrow> Inl ValueError
      | Some (d, s1) \<Rightarrow>
          (case s1 of
             [] \<Rightarrow> Inl ValueError
           | c # s2 \<Rightarrow>
               if c \<noteq> CHR ''-'' then Inl ValueError
               else (case index_of (map lower_char (take 3 s2)) month_abbrs of
                       None \<Rightarrow> Inl ValueError
                     | Some i \<Rightarrow>
                         (case drop 3 s2 of
                            [] \<Rightarrow> Inl ValueError
                          | c' # s3 \<Rightarrow>
                              if c' \<noteq> CHR ''-'' then Inl ValueError
                              else if length s3 = 4 \<and> list_all is_digit s3
                              then (let y = digits_val s3 in
                                    if 1 \<le> y \<and> d \<le> days_in_month y (Suc i)
                                    then Inr \<lparr>year = y, month = Suc i, day = d\<rparr>
                                    else Inl ValueError)
                              else Inl ValueError))))"

section \<open>Announcement records\<close>

text \<open>
  A record is the Python dict the extractor builds: keys in insertion order, string
  values. \<^verbatim>\<open>k in d\<close> is \<open>map_of d k \<noteq> None\<close>, \<^verbatim>\<open>d[k] = v\<close> is \<open>AList.update k v d\<close>.
\<close>

type_synonym dividend = "(string \<times> string) list"

section \<open>Documents\<close>

text \<open>
  What \<^verbatim>\<open>BeautifulSoup(..., 'html.parser')\<close> returns, as far as the scraper reads it: a
  tree of text nodes and elements with a name, attributes and children. The document
  itself is the root element.
\<close>

datatype html = Text string | Elem string "(string \<times> string) list" "html list"

text \<open>The nodes below a node, in document order: the order \<^verbatim>\<open>find\<close> and \<^verbatim>\<open>find_all\<close> search in.\<close>

fun descendants :: "html \<Rightarrow> html list" where
  "descendants (Text t) = []"
| "descendants (Elem n attrs cs) = concat (map (\<lambda>c. c # descendants c) cs)"

definition find_all :: "(html \<Rightarrow> bool) \<Rightarrow> html \<Rightarrow> html list" where
  "find_all P node = filter P (descendants node)"

definition find_first :: "(html \<Rightarrow> bool) \<Rightarrow> html \<Rightarrow> html option" where
  "find_first P node = (case find_all P node of [] \<Rightarrow> None | e # _ \<Rightarrow> Some e)"

text \<open>\<^verbatim>\<open>get_text()\<close>: the text nodes below a node, concatenated.\<close>

fun get_text :: "html \<Rightarrow> string" where
  "get_text (Text t) = t"
| "get_text (Elem n attrs cs) = concat (map get_text cs)"

definition tag_named :: "string list \<Rightarrow> html \<Rightarrow> bool" where
  "tag_named names e = (case e of Text t \<Rightarrow> False | Elem n attrs cs \<Rightarrow> n \<in> set names)"

text \<open>\<^verbatim>\<open>tag.get(k)\<close>.\<close>

definition get_attr :: "string \<Rightarrow> html \<Rightarrow> string option" where
  "get_attr k e = (case e of Text t \<Rightarrow> None | Elem n attrs cs \<Rightarrow> map_of attrs k)"

text \<open>
  The \<^verbatim>\<open>class\<close> attribute is a list of whitespace-separated names. \<^verbatim>\<open>class_='c'\<close> holds
  of an element when one of them is \<open>c\<close>; \<^verbatim>\<open>class_=re.compile(r)\<close> when \<open>r\<close> is found in
  one of them.
\<close>

definition class_names :: "html \<Rightarrow> string list" where
  "class_names e = (case get_attr ''class'' e of None \<Rightarrow> [] | Some v \<Rightarrow> ws_tokens v)"

definition has_class :: "string \<Rightarrow> html \<Rightarrow> bool" where
  "has_class c e = (c \<in> set (class_names e))"

definition class_matches :: "rx \<Rightarrow> html \<Rightarrow> bool" where
  "class_matches r e = list_ex (re_find r) (class_names e)"

section \<open>\<^verbatim>\<open>extract_dividend_data\<close>\<close>

text \<open>The patterns of \<^verbatim>\<open>extract_dividend_data\<close>, in the order of the source.\<close>

definition rx_date_dashed :: rx where
  \<comment> \<open>\<^verbatim>\<open>\d{2}-[A-Za-z]{3}-\d{4}\<close>\<close>
  "rx_date_dashed = Seq [Rep 2 (Cls is_digit), Chr CHR ''-'', Rep 3 (Cls is_alpha), Chr CHR ''-'',
                         Rep 4 (Cls is_digit)]"

definition rx_date_dotted :: rx where
  \<comment> \<open>\<^verbatim>\<open>\d{2}\.[A-Za-z]{3}\.\d{4}\<close>\<close>
  "rx_date_dotted = Seq [Rep 2 (Cls is_digit), Chr CHR ''.'', Rep 3 (Cls is_alpha), Chr CHR ''.'',
                         Rep 4 (Cls is_digit)]"

definition rx_label_sep :: rx where
  \<comment> \<open>\<^verbatim>\<open>\s*-?\s*\<close>\<close>
  "rx_label_sep = Seq [Star (Cls is_space), Opt (Chr CHR ''-''), Star (Cls is_space)]"

definition pat_post_date :: pattern where
  \<comment> \<open>\<^verbatim>\<open>(\d{2}-[A-Za-z]{3}-\d{4})\<close>\<close>
  "pat_post_date = Pattern Eps rx_date_dashed Eps"

definition pat_company_code :: pattern where
  \<comment> \<open>\<^verbatim>\<open>-\s+([A-Z]+)\s*$\<close>\<close>
  "pat_company_code =
     Pattern (Cat (Chr CHR ''-'') (Plus (Cls is_space))) (Plus (Cls is_upper))
             (Cat (Star (Cls is_space)) Eos)"

definition pat_ann_date :: pattern where
  \<comment> \<open>\<^verbatim>\<open>Date of (?:Initial )?Announcement:\s*-?\s*(\d{2}-[A-Za-z]{3}-\d{4})\<close>\<close>
  "pat_ann_date =
     Pattern (Seq [Lit ''Date of '', Opt (Lit ''Initial ''), Lit ''Announcement:'', rx_label_sep])
             rx_date_dashed Eps"

definition pat_xd_date :: pattern where
  \<comment> \<open>\<^verbatim>\<open>XD:\s*-?\s*(\d{2}\.[A-Za-z]{3}\.\d{4})\<close>\<close>
  "pat_xd_date = Pattern (Cat (Lit ''XD:'') rx_label_sep) rx_date_dotted Eps"

definition rx_xd_tba :: rx where
  \<comment> \<open>\<^verbatim>\<open>XD:\s*-?\s*TBA\<close>\<close>
  "rx_xd_tba = Seq [Lit ''XD:'', rx_label_sep, Lit ''TBA'']"

definition pat_financial_year :: pattern where
  \<comment> \<open>\<^verbatim>\<open>Financial Year:\s*-?\s*([\d\s/]+)\<close>\<close>
  "pat_financial_year =
     Pattern (Cat (Lit ''Financial Year:'') rx_label_sep)
             (Plus (Cls (\<lambda>c. is_digit c \<or> is_space c \<or> c = CHR ''/''))) Eps"

definition pat_dividend_rate :: pattern where
  \<comment> \<open>\<^verbatim>\<open>Rate of Dividend:\s*-?\s*Rs\.\s*([\d.]+)\s*per share\<close>\<close>
  "pat_dividend_rate =
     Pattern (Seq [Lit ''Rate of Dividend:'', rx_label_sep, Lit ''Rs.'', Star (Cls is_space)])
             (Plus (Cls (\<lambda>c. is_digit c \<or> c = CHR ''.'')))
             (Cat (Star (Cls is_space)) (Lit ''per share''))"

text \<open>The steps of the function after the title date, each on the dict built so far.\<close>

definition set_company_code :: "string \<Rightarrow> dividend \<Rightarrow> dividend" where
  "set_company_code title data =
     (case re_search pat_company_code title of
        Some code \<Rightarrow> AList.update ''Company_Code'' code data
      | None \<Rightarrow> data)"

definition content_lines :: "string \<Rightarrow> string list" where
  \<comment> \<open>\<^verbatim>\<open>[line.strip() for line in content.split('\n') if line.strip()]\<close>\<close>
  "content_lines content = map strip (filter (\<lambda>line. strip line \<noteq> []) (split_on CHR 0x0A content))"

definition set_company_name :: "string \<Rightarrow> dividend \<Rightarrow> dividend" where
  "set_company_name content data =
     (case content_lines content of
        l0 # l1 # ls \<Rightarrow> AList.update ''Company_Name'' l1 data
      | _ \<Rightarrow> data)"

definition set_announcement_date :: "string \<Rightarrow> dividend \<Rightarrow> dividend" where
  "set_announcement_date content data =
     (case re_search pat_ann_date content of
        Some d \<Rightarrow> AList.update ''Date_of_Announcement'' d data
      | None \<Rightarrow> data)"

definition set_xd_date :: "string \<Rightarrow> dividend \<Rightarrow> dividend" where
  "set_xd_date content data =
     (case re_search pat_xd_date content of
        Some d \<Rightarrow> AList.update ''XD_Date'' (replace_char CHR ''.'' CHR ''-'' d) data
      | None \<Rightarrow>
          if re_find rx_xd_tba content then AList.update ''XD_Date'' ''TBA'' data else data)"

definition set_financial_year :: "string \<Rightarrow> dividend \<Rightarrow> dividend" where
  "set_financial_year content data =
     (case re_search pat_financial_year content of
        Some fy \<Rightarrow> AList.update ''Financial_Year'' (strip fy) data
      | None \<Rightarrow> data)"

definition set_dividend_rate :: "string \<Rightarrow> dividend \<Rightarrow> dividend" where
  "set_dividend_rate content data =
     (case re_search pat_dividend_rate content of
        Some rate \<Rightarrow> AList.update ''Dividend_Rate'' (''Rs. '' @ rate) data
      | None \<Rightarrow> data)"

text \<open>
  \<^verbatim>\<open>extract_dividend_data(post)\<close>: \<open>None\<close> is the Python \<^verbatim>\<open>None\<close> of the three early
  returns. A tag is always true in Python, so \<^verbatim>\<open>not title_elem\<close> holds exactly when
  \<^verbatim>\<open>find\<close> found nothing.
\<close>

definition extract_dividend_data :: "html \<Rightarrow> dividend option" where
  "extract_dividend_data post =
     (case find_first (tag_named [''h3'', ''h2'']) post of
        None \<Rightarrow> None
      | Some title_elem \<Rightarrow>
          (case find_first (tag_named [''a'']) title_elem of
             None \<Rightarrow> None
           | Some title_link \<Rightarrow>
               (let title = get_text title_link in
                case re_search pat_post_date title of
                  None \<Rightarrow> None
                | Some post_date \<Rightarrow>
                    (let data = AList.update ''Post_Date'' post_date [];
                         data = set_company_code title data;
                         content = get_text post;
                         data = set_company_name content data;
                         data = set_announcement_date content data;
                         data = set_xd_date content data;
                         data = set_financial_year content data;
                         data = set_dividend_rate content data
                     in Some data))))"

section \<open>\<^verbatim>\<open>scrape_dividend_announcements\<close>\<close>

text \<open>
  The web is a function from URLs to documents: \<open>None\<close> where \<^verbatim>\<open>get_blogspot_page\<close>
  raises. The current year is a parameter.
\<close>

type_synonym web = "string \<Rightarrow> html option"

definition base_url :: string where
  "base_url = ''https://cse-dividend-announcements.blogspot.com/''"

text \<open>The two \<^verbatim>\<open>print\<close> calls of the loop.\<close>

datatype message = Scraped_pages int nat | Error_scraping string

text \<open>
  The variables of the loop. \<open>fetched\<close> is not a variable of the source: it records the
  arguments of the calls of \<^verbatim>\<open>get_blogspot_page\<close>, in order.
\<close>

record crawl_state =
  page_urls :: "string list"
  visited :: "string set"
  all_dividends :: "dividend list"
  page_count :: int
  fetched :: "string list"
  printed :: "message list"

definition initial_state :: "string \<Rightarrow> crawl_state" where
  "initial_state start_url =
     \<lparr>page_urls = [start_url], visited = {}, all_dividends = [], page_count = 0,
      fetched = [], printed = []\<rparr>"

text \<open>
  The posts of a page: \<^verbatim>\<open>div\<close> elements of class \<^verbatim>\<open>post-outer\<close>, or, when there are
  none, \<^verbatim>\<open>div\<close> and \<^verbatim>\<open>article\<close> elements whose class matches \<^verbatim>\<open>post|entry\<close>.
\<close>

definition select_posts :: "html \<Rightarrow> html list" where
  "select_posts soup =
     (let posts = find_all (\<lambda>e. tag_named [''div''] e \<and> has_class ''post-outer'' e) soup in
      if posts = []
      then find_all (\<lambda>e. tag_named [''div'', ''article''] e
                       \<and> class_matches (Alt (Lit ''post'') (Lit ''entry'')) e) soup
      else posts)"

text \<open>
  The target of the "Older Posts" link: the \<^verbatim>\<open>href\<close> of the first \<^verbatim>\<open>a\<close> of class
  \<^verbatim>\<open>blog-pager-older-link\<close>, when there is one and it is not empty.
\<close>

definition older_link_href :: "html \<Rightarrow> string option" where
  "older_link_href soup =
     (case find_first (\<lambda>e. tag_named [''a''] e \<and> has_class ''blog-pager-older-link'' e) soup of
        None \<Rightarrow> None
      | Some older_link \<Rightarrow>
          (case get_attr ''href'' older_link of
             None \<Rightarrow> None
           | Some href \<Rightarrow> if href = [] then None else Some href))"

text \<open>
  The loop over the posts of one page, on the pair of \<^verbatim>\<open>all_dividends\<close> and
  \<^verbatim>\<open>page_urls\<close>. The first post with an announcement year below the cutoff clears
  the queue and ends the loop (\<^verbatim>\<open>break\<close>); a date that \<^verbatim>\<open>strptime\<close> rejects is
  skipped by the bare \<^verbatim>\<open>except: pass\<close>. A dict the extractor returns always holds
  \<^verbatim>\<open>Post_Date\<close>, so the test \<^verbatim>\<open>if dividend_data\<close> is true exactly when the result is
  not \<^verbatim>\<open>None\<close>.
\<close>

fun process_posts :: "int \<Rightarrow> html list \<Rightarrow> dividend list \<times> string list \<Rightarrow> dividend list \<times> string list" where
  "process_posts cutoff_year [] (dividends, urls) = (dividends, urls)"
| "process_posts cutoff_year (post # posts) (dividends, urls) =
     (case extract_dividend_data post of
        None \<Rightarrow> process_posts cutoff_year posts (dividends, urls)
      | Some dividend_data \<Rightarrow>
          (case map_of dividend_data ''Date_of_Announcement'' of
             None \<Rightarrow> process_posts cutoff_year posts (dividends, urls)
           | Some s \<Rightarrow>
               (case strptime s of
                  Inl e \<Rightarrow> process_posts cutoff_year posts (dividends, urls)
                | Inr ann_date \<Rightarrow>
                    if int (year ann_date) \<ge> cutoff_year
                    then process_posts cutoff_year posts (dividends @ [dividend_data], urls)
                    else if int (year ann_date) < cutoff_year
                    then (dividends, [])
                    else process_posts cutoff_year posts (dividends, urls))))"

text \<open>
  One iteration of the \<^verbatim>\<open>while\<close> loop, entered with a non-empty queue.
\<close>

definition crawl_step :: "web \<Rightarrow> int \<Rightarrow> crawl_state \<Rightarrow> crawl_state" where
  "crawl_step get_blogspot_page cutoff_year st =
     (case page_urls st of
        [] \<Rightarrow> st
      | url # rest \<Rightarrow>
          if url \<in> visited st then st\<lparr>page_urls := rest\<rparr>
          else
            (let st = st\<lparr>page_urls := rest, visited := insert url (visited st),
                          page_count := page_count st + 1, fetched := fetched st @ [url]\<rparr>
             in case get_blogspot_page url of
                  None \<Rightarrow> st\<lparr>printed := printed st @ [Error_scraping url]\<rparr>
                | Some soup \<Rightarrow>
                    (let (dividends, urls) =
                           process_posts cutoff_year (select_posts soup) (all_dividends st, page_urls st);
                         urls = (case older_link_href soup of
                                   None \<Rightarrow> urls
                                 | Some next_url \<Rightarrow>
                                     if next_url \<notin> visited st then urls @ [next_url] else urls);
                         out = (if page_count st mod 5 = 0
                                then printed st @ [Scraped_pages (page_count st) (length dividends)]
                                else printed st)
                     in st\<lparr>page_urls := urls, all_dividends := dividends, printed := out\<rparr>)))"

text \<open>\<^verbatim>\<open>while page_urls and page_count < max_pages\<close>.\<close>

definition loop_cond :: "int \<Rightarrow> crawl_state \<Rightarrow> bool" where
  "loop_cond max_pages st = (page_urls st \<noteq> [] \<and> page_count st < max_pages)"

function crawl_loop :: "web \<Rightarrow> int \<Rightarrow> int \<Rightarrow> crawl_state \<Rightarrow> crawl_state" where
  "crawl_loop get_blogspot_page cutoff_year max_pages st =
     (if loop_cond max_pages st
      then crawl_loop get_blogspot_page cutoff_year max_pages (crawl_step get_blogspot_page cutoff_year st)
      else st)"
  by pat_completeness auto
termination
  by (relation "measures [\<lambda>(w, c, m, st). nat (m - page_count st), \<lambda>(w, c, m, st). length (page_urls st)]")
     (auto simp: loop_cond_def crawl_step_def Let_def split: list.splits option.splits prod.splits)

text \<open>
  The state the loop ends in, and the function itself: the cutoff year is
  \<^verbatim>\<open>current_year - num_years\<close>, the ceiling \<^verbatim>\<open>num_years * 20\<close> pages.
\<close>

definition crawl :: "web \<Rightarrow> int \<Rightarrow> int \<Rightarrow> string \<Rightarrow> crawl_state" where
  "crawl get_blogspot_page current_year num_years start_url =
     crawl_loop get_blogspot_page (current_year - num_years) (num_years * 20) (initial_state start_url)"

definition scrape_dividend_announcements :: "web \<Rightarrow> int \<Rightarrow> int \<Rightarrow> dividend list" where
  "scrape_dividend_announcements get_blogspot_page current_year num_years =
     all_dividends (crawl get_blogspot_page current_year num_years base_url)"

section \<open>\<^verbatim>\<open>filter_by_month\<close>\<close>

text \<open>
  The loop of \<^verbatim>\<open>filter_by_month\<close>, with the list \<^verbatim>\<open>filtered\<close> as accumulator. A
  \<^verbatim>\<open>ValueError\<close> of \<^verbatim>\<open>strptime\<close> is caught by the bare \<^verbatim>\<open>except: pass\<close>.
\<close>

fun filter_by_month_loop :: "dividend list \<Rightarrow> int \<Rightarrow> dividend list \<Rightarrow> dividend list" where
  "filter_by_month_loop [] month_number filtered = filtered"
| "filter_by_month_loop (dv # rest) month_number filtered =
     (case map_of dv ''Date_of_Announcement'' of
        None \<Rightarrow> filter_by_month_loop rest month_number filtered
      | Some s \<Rightarrow>
          (case strptime s of
             Inl e \<Rightarrow> filter_by_month_loop rest month_number filtered
           | Inr ann_date \<Rightarrow>
               if int (month ann_date) = month_number
               then filter_by_month_loop rest month_number (filtered @ [dv])
               else filter_by_month_loop rest month_number filtered))"

definition filter_by_month :: "dividend list \<Rightarrow> int \<Rightarrow> dividend list" where
  "filter_by_month dividends month_number = filter_by_month_loop dividends month_number []"

section \<open>Notions used in the statements\<close>

text \<open>
  The states the loop passes through: \<open>reachable w c m st0 st\<close> when \<open>st\<close> is \<open>st0\<close> or
  comes from it by iterations of the loop body, each entered with the loop condition true.
\<close>

inductive reachable :: "web \<Rightarrow> int \<Rightarrow> int \<Rightarrow> crawl_state \<Rightarrow> crawl_state \<Rightarrow> bool"
  for w :: web and c :: int and m :: int and st0 :: crawl_state where
  start: "reachable w c m st0 st0"
| step: "reachable w c m st0 st \<Longrightarrow> loop_cond m st \<Longrightarrow> reachable w c m st0 (crawl_step w c st)"

text \<open>
  The record of a post together with its parsed announcement date, when the post is
  extractable, has the field and \<^verbatim>\<open>strptime\<close> accepts it.
\<close>

definition dated_record :: "html \<Rightarrow> (dividend \<times> datetime) option" where
  "dated_record post =
     (case extract_dividend_data post of
        None \<Rightarrow> None
      | Some d \<Rightarrow>
          (case map_of d ''Date_of_Announcement'' of
             None \<Rightarrow> None
           | Some s \<Rightarrow> (case strptime s of Inl e \<Rightarrow> None | Inr dt \<Rightarrow> Some (d, dt))))"

text \<open>A post whose announcement year is strictly below the cutoff year.\<close>

definition too_old :: "int \<Rightarrow> html \<Rightarrow> bool" where
  "too_old cutoff_year post =
     (case dated_record post of None \<Rightarrow> False | Some (d, dt) \<Rightarrow> int (year dt) < cutoff_year)"

text \<open>The records of the posts whose announcement year is at least the cutoff year, in order.\<close>

definition in_range_records :: "int \<Rightarrow> html list \<Rightarrow> dividend list" where
  "in_range_records cutoff_year posts =
     concat (map (\<lambda>p. case dated_record p of
                         None \<Rightarrow> []
                       | Some (d, dt) \<Rightarrow> if int (year dt) \<ge> cutoff_year then [d] else []) posts)"

text \<open>
  The invariant of the loop that relates the calls of \<^verbatim>\<open>get_blogspot_page\<close> to the
  variables \<^verbatim>\<open>visited\<close> and \<^verbatim>\<open>page_count\<close>.
\<close>

definition crawl_inv :: "crawl_state \<Rightarrow> bool" where
  "crawl_inv st = (distinct (fetched st) \<and> set (fetched st) = visited st
                   \<and> page_count st = int (length (fetched st)))"

text \<open>
  A date token: two digits, the separator, three letters, the separator, four digits. The
  separator is a dash in titles and announcement dates, a dot in ex-dividend dates. The
  three letters need not name a month.
\<close>

definition is_date_token :: "char \<Rightarrow> string \<Rightarrow> bool" where
  "is_date_token sep d =
     (\<exists>dd mon yyyy. d = dd @ [sep] @ mon @ [sep] @ yyyy
        \<and> length dd = 2 \<and> list_all is_digit dd
        \<and> length mon = 3 \<and> list_all is_alpha mon
        \<and> length yyyy = 4 \<and> list_all is_digit yyyy)"

text \<open>The string \<open>s\<close> starts with the date token \<open>tok\<close>.\<close>

definition date_token_at :: "string \<Rightarrow> string \<Rightarrow> bool" where
  "date_token_at s tok = (\<exists>rest. s = tok @ rest \<and> is_date_token CHR ''-'' tok)"

text \<open>What may stand between a label and its value: whitespace, one optional dash, whitespace.\<close>

definition label_sep :: "string \<Rightarrow> bool" where
  "label_sep u =
     (\<exists>ws1 dash ws2. u = ws1 @ dash @ ws2 \<and> list_all is_space ws1 \<and> (dash = [] \<or> dash = ''-'')
        \<and> list_all is_space ws2)"

text \<open>
  The string \<open>s\<close> starts with the label \<^verbatim>\<open>XD:\<close>, followed by the optional dash and the
  dotted date \<open>d\<close>; or by the optional dash and the literal \<^verbatim>\<open>TBA\<close>.
\<close>

definition xd_date_at :: "string \<Rightarrow> string \<Rightarrow> bool" where
  "xd_date_at s d = (\<exists>u rest. s = ''XD:'' @ u @ d @ rest \<and> label_sep u \<and> is_date_token CHR ''.'' d)"

definition xd_tba_at :: "string \<Rightarrow> bool" where
  "xd_tba_at s = (\<exists>u rest. s = ''XD:'' @ u @ ''TBA'' @ rest \<and> label_sep u)"

text \<open>
  The string \<open>s\<close> is a dash, at least one whitespace character, the non-empty run \<open>c\<close> of
  uppercase letters and then only whitespace; a title ends with the dash-code \<open>c\<close> when
  one of its suffixes is of this form.
\<close>

definition dash_code_at :: "string \<Rightarrow> string \<Rightarrow> bool" where
  "dash_code_at s c =
     (\<exists>ws ws'. s = ''-'' @ ws @ c @ ws' \<and> ws \<noteq> [] \<and> list_all is_space ws
        \<and> c \<noteq> [] \<and> list_all is_upper c \<and> list_all is_space ws')"

definition ends_with_dash_code :: "string \<Rightarrow> string \<Rightarrow> bool" where
  "ends_with_dash_code title c = (\<exists>pre s. title = pre @ s \<and> dash_code_at s c)"

text \<open>The title of a post: the text of the first link in its first \<^verbatim>\<open>h3\<close> or \<^verbatim>\<open>h2\<close>.\<close>

definition title_of :: "html \<Rightarrow> string option" where
  "title_of post =
     (case find_first (tag_named [''h3'', ''h2'']) post of
        None \<Rightarrow> None
      | Some title_elem \<Rightarrow>
          (case find_first (tag_named [''a'']) title_elem of
             None \<Rightarrow> None
           | Some title_link \<Rightarrow> Some (get_text title_link)))"

section \<open>Example documents\<close>

text \<open>
  A blog of two pages: page \<open>A\<close> links to page \<open>B\<close>, page \<open>B\<close> to a page \<open>C\<close> that cannot
  be fetched.
\<close>

definition newline :: string where
  "newline = [CHR 0x0A]"

definition ex_post :: "string \<Rightarrow> string list \<Rightarrow> html" where
  "ex_post title body_lines =
     Elem ''div'' [(''class'', ''post-outer'')]
       [Elem ''h3'' [(''class'', ''post-title entry-title'')]
          [Elem ''a'' [(''href'', ''#'')] [Text title]],
        Text newline,
        Elem ''div'' [(''class'', ''post-body'')]
          [Text (concat (map (\<lambda>l. l @ newline) body_lines))]]"

definition ex_page :: "html list \<Rightarrow> string \<Rightarrow> html" where
  "ex_page posts older =
     Elem ''[document]'' []
       (posts @ [Elem ''a'' [(''class'', ''blog-pager-older-link''), (''href'', older)]
                   [Text ''Older Posts'']])"

definition ex_post_2024 :: html where
  "ex_post_2024 = ex_post ''07-Jun-2024 - ABC''
     [''Abc Holdings PLC'', ''Date of Announcement: - 05-Jun-2024'', ''XD: - 20.Jun.2024'',
      ''Financial Year: - 2023/2024'', ''Rate of Dividend: - Rs. 2.50 per share'']"

definition ex_post_undated :: html where
  "ex_post_undated = ex_post ''08-Jun-2024 - XYZ'' [''Xyz PLC'', ''XD: - TBA'']"

definition ex_post_2023 :: html where
  "ex_post_2023 = ex_post ''12-Dec-2023 - DEF'' [''Def PLC'', ''Date of Initial Announcement: 10-Dec-2023'']"

definition ex_post_bad_date :: html where
  "ex_post_bad_date = ex_post ''01-Mar-2024 - GHI'' [''Ghi PLC'', ''Date of Announcement: - 31-Feb-2024'']"

definition ex_post_2015 :: html where
  "ex_post_2015 = ex_post ''03-Feb-2015 - JKL'' [''Jkl PLC'', ''Date of Announcement: - 02-Feb-2015'']"

definition ex_page_a :: html where
  "ex_page_a = ex_page [ex_post_2024, ex_post_undated] ''B''"

definition ex_page_b :: html where
  "ex_page_b = ex_page [ex_post_2023, ex_post_bad_date, ex_post_2015, ex_post_2024] ''C''"

definition ex_web :: web where
  "ex_web url = (if url = ''A'' then Some ex_page_a else if url = ''B'' then Some ex_page_b else None)"

text \<open>The states after the first and the second iteration of the crawl of this blog from \<open>A\<close>,
  with the cutoff year 2020.\<close>

definition ex_state_1 :: crawl_state where
  "ex_state_1 = crawl_step ex_web 2020 (initial_state ''A'')"

definition ex_state_2 :: crawl_state where
  "ex_state_2 = crawl_step ex_web 2020 ex_state_1"

text \<open>A blog whose every page links to a further page, and has no posts.\<close>

definition ex_endless_web :: web where
  "ex_endless_web url = Some (ex_page [] (url @ ''x''))"

text \<open>The records of the first post of page \<open>A\<close> and of the first post of page \<open>B\<close>.\<close>

definition ex_record_2024 :: dividend where
  "ex_record_2024 = [(''Post_Date'', ''07-Jun-2024''), (''Company_Code'', ''ABC''),
       (''Company_Name'', ''Abc Holdings PLC''), (''Date_of_Announcement'', ''05-Jun-2024''),
       (''XD_Date'', ''20-Jun-2024''), (''Financial_Year'', ''2023/2024''), (''Dividend_Rate'', ''Rs. 2.50'')]"

definition ex_record_2023 :: dividend where
  "ex_record_2023 = [(''Post_Date'', ''12-Dec-2023''), (''Company_Code'', ''DEF''),
       (''Company_Name'', ''Def PLC''), (''Date_of_Announcement'', ''10-Dec-2023'')]"

text \<open>
  A state with three pending URLs, the first and the last being the page \<open>C\<close> that
  cannot be fetched.
\<close>

definition ex_state_pending :: crawl_state where
  "ex_state_pending =
     \<lparr>page_urls = [''C'', ''B'', ''C''], visited = {''A''}, all_dividends = [ex_record_2024],
      page_count = 1, fetched = [''A''], printed = []\<rparr>"

text \<open>
  A post whose title has no date, a post whose title has no company code, a fragment
  without a heading and a fragment whose heading has no link.
\<close>

definition ex_post_no_title_date :: html where
  "ex_post_no_title_date = ex_post ''Dividend - ABC'' [''Abc PLC'', ''XD: - 05.Jun.2024'']"

definition ex_post_no_code :: html where
  "ex_post_no_code = ex_post ''09-Jun-2024 Final dividend'' [''Mno PLC'', ''XD: 05.Jul.2024'']"

definition ex_fragment_no_heading :: html where
  "ex_fragment_no_heading = Elem ''div'' [(''class'', ''post-outer'')] [Elem ''a'' [] [Text ''07-Jun-2024 - ABC'']]"

definition ex_fragment_no_link :: html where
  "ex_fragment_no_link = Elem ''div'' [(''class'', ''post-outer'')] [Elem ''h2'' [] [Text ''07-Jun-2024 - ABC'']]"

section \<open>Properties of \<^verbatim>\<open>filter_by_month\<close>\<close>

lemma filter_by_month_loop_filter:
  "filter_by_month_loop ds m acc =
     acc @ filter (\<lambda>d. \<exists>s dt. map_of d ''Date_of_Announcement'' = Some s
                          \<and> strptime s = Inr dt \<and> int (month dt) = m) ds"
  by (induction ds arbitrary: acc) (auto split: option.splits sum.splits)

lemmas strptime_eval = strptime_def is_digit_def is_digit19_def digit_val_def digits_val_def
  lower_char_def upper_chars_def lower_chars_def month_abbrs_def days_in_month_def is_leap_def

text \<open>
  Claim C1. For every list of records and every month number (in particular 1 to 12),
  \<^verbatim>\<open>filter_by_month\<close> returns exactly the records that have an announcement date which
  \<^verbatim>\<open>strptime\<close> parses in the format \<^verbatim>\<open>%d-%b-%Y\<close> with that month, in the order of the
  input. A record without the field, or with a date that does not parse, is left out;
  the function returns a list for every input.
\<close>

theorem filter_by_month_exact:
  "filter_by_month dividends month_number =
     filter (\<lambda>d. \<exists>s dt. map_of d ''Date_of_Announcement'' = Some s
                     \<and> strptime s = Inr dt \<and> int (month dt) = month_number) dividends"
  by (simp add: filter_by_month_def filter_by_month_loop_filter)

theorem filter_by_month_exact_witness:
  "filter_by_month
     [[(''Post_Date'', ''07-Jun-2024''), (''Date_of_Announcement'', ''05-Jun-2024'')],
      [(''Post_Date'', ''07-Jun-2024'')],
      [(''Date_of_Announcement'', ''31-Jun-2024'')],
      [(''Date_of_Announcement'', ''12-Jul-2023'')],
      [(''Date_of_Announcement'', ''1-JUN-2021''), (''Company_Code'', ''ABC'')]] 6
   = [[(''Post_Date'', ''07-Jun-2024''), (''Date_of_Announcement'', ''05-Jun-2024'')],
      [(''Date_of_Announcement'', ''1-JUN-2021''), (''Company_Code'', ''ABC'')]]"
  using filter_by_month_exact [of _ 6]
  by (simp add: strptime_eval)

section \<open>Properties of the crawl\<close>

declare crawl_loop.simps [simp del]

lemma process_posts_char:
  "process_posts c posts (acc, q) =
     (if list_ex (too_old c) posts
      then (acc @ in_range_records c (takeWhile (\<lambda>p. \<not> too_old c p) posts), [])
      else (acc @ in_range_records c posts, q))"
  by (induction posts arbitrary: acc)
     (auto simp: too_old_def in_range_records_def dated_record_def split: option.splits sum.splits)

lemma dated_record_has_date:
  "dated_record p = Some (d, dt) \<Longrightarrow> map_of d ''Date_of_Announcement'' \<noteq> None"
  by (auto simp: dated_record_def split: option.splits sum.splits)

lemma in_range_records_have_date:
  "d \<in> set (in_range_records c posts) \<Longrightarrow> map_of d ''Date_of_Announcement'' \<noteq> None"
  unfolding in_range_records_def
  by (induction posts) (auto split: option.splits if_splits dest: dated_record_has_date [OF sym])

lemma crawl_loop_reachable:
  "reachable w c m st0 st \<Longrightarrow> reachable w c m st0 (crawl_loop w c m st)"
proof (induction w c m st rule: crawl_loop.induct)
  case (1 w c m st)
  show ?case
  proof (cases "loop_cond m st")
    case True
    with 1 show ?thesis
      by (subst crawl_loop.simps) (simp add: reachable.step)
  next
    case False
    with 1 show ?thesis
      by (subst crawl_loop.simps) simp
  qed
qed

lemma crawl_loop_iterates:
  "\<exists>k. (\<forall>j<k. loop_cond m ((crawl_step w c ^^ j) st))
       \<and> \<not> loop_cond m ((crawl_step w c ^^ k) st)
       \<and> crawl_loop w c m st = (crawl_step w c ^^ k) st"
proof (induction w c m st rule: crawl_loop.induct)
  case (1 w c m st)
  show ?case
  proof (cases "loop_cond m st")
    case True
    from 1 [OF True] obtain k where k:
      "\<forall>j<k. loop_cond m ((crawl_step w c ^^ j) (crawl_step w c st))"
      "\<not> loop_cond m ((crawl_step w c ^^ k) (crawl_step w c st))"
      "crawl_loop w c m (crawl_step w c st) = (crawl_step w c ^^ k) (crawl_step w c st)"
      by blast
    have "\<forall>j<Suc k. loop_cond m ((crawl_step w c ^^ j) st)"
    proof (intro allI impI)
      fix j assume "j < Suc k"
      show "loop_cond m ((crawl_step w c ^^ j) st)"
      proof (cases j)
        case 0 with True show ?thesis by simp
      next
        case (Suc i)
        with \<open>j < Suc k\<close> k(1) show ?thesis by (simp add: funpow_swap1)
      qed
    qed
    moreover have "\<not> loop_cond m ((crawl_step w c ^^ Suc k) st)"
      using k(2) by (simp add: funpow_swap1)
    moreover have "crawl_loop w c m st = (crawl_step w c ^^ Suc k) st"
      using k(3) True by (subst crawl_loop.simps) (simp add: funpow_swap1)
    ultimately show ?thesis by blast
  next
    case False
    then have "crawl_loop w c m st = st" by (subst crawl_loop.simps) simp
    with False show ?thesis by (intro exI [of _ 0]) simp
  qed
qed

lemma crawl_step_inv: "crawl_inv st \<Longrightarrow> crawl_inv (crawl_step w c st)"
  by (auto simp: crawl_inv_def crawl_step_def Let_def split: list.splits option.splits prod.splits)

lemma crawl_step_has_date:
  assumes "\<forall>d\<in>set (all_dividends st). map_of d ''Date_of_Announcement'' \<noteq> None"
  shows "\<forall>d\<in>set (all_dividends (crawl_step w c st)). map_of d ''Date_of_Announcement'' \<noteq> None"
  using assms
  by (auto simp: crawl_step_def Let_def process_posts_char
           dest: in_range_records_have_date split: list.splits option.splits prod.splits if_splits)

lemma crawl_step_count_le:
  "loop_cond m st \<Longrightarrow> page_count (crawl_step w c st) \<le> m"
  by (auto simp: loop_cond_def crawl_step_def Let_def split: list.splits option.splits prod.splits)

lemma reachable_inv: "reachable w c m st0 st \<Longrightarrow> crawl_inv st0 \<Longrightarrow> crawl_inv st"
  by (induction rule: reachable.induct) (auto intro: crawl_step_inv)

lemma reachable_count_le:
  "reachable w c m st0 st \<Longrightarrow> page_count st0 \<le> m \<Longrightarrow> page_count st \<le> m"
  by (induction rule: reachable.induct) (auto intro: crawl_step_count_le)

lemma reachable_has_date:
  "reachable w c m st0 st \<Longrightarrow> \<forall>d\<in>set (all_dividends st0). map_of d ''Date_of_Announcement'' \<noteq> None
    \<Longrightarrow> \<forall>d\<in>set (all_dividends st). map_of d ''Date_of_Announcement'' \<noteq> None"
proof (induction rule: reachable.induct)
  case start
  then show ?case by simp
next
  case (step st)
  then show ?case using crawl_step_has_date [of st w c] by blast
qed

lemma funpow_reachable:
  "(\<forall>j<k. loop_cond m ((crawl_step w c ^^ j) st0)) \<Longrightarrow> reachable w c m st0 ((crawl_step w c ^^ k) st0)"
  by (induction k) (auto intro: reachable.intros)

lemma process_posts_skip:
  "dated_record post = None \<Longrightarrow>
   process_posts c (before @ post # after) (acc, q) = process_posts c (before @ after) (acc, q)"
  by (simp add: process_posts_char too_old_def in_range_records_def takeWhile_append)

lemma step_visited:
  "page_urls st = url # rest \<Longrightarrow> url \<in> visited st \<Longrightarrow> crawl_step w c st = st\<lparr>page_urls := rest\<rparr>"
  by (simp add: crawl_step_def)

lemma step_fetch_failed:
  "page_urls st = url # rest \<Longrightarrow> url \<notin> visited st \<Longrightarrow> w url = None \<Longrightarrow>
   crawl_step w c st =
     st\<lparr>page_urls := rest, visited := insert url (visited st), page_count := page_count st + 1,
        fetched := fetched st @ [url], printed := printed st @ [Error_scraping url]\<rparr>"
  by (simp add: crawl_step_def)

lemma step_fetched:
  "page_urls st = url # rest \<Longrightarrow> url \<notin> visited st \<Longrightarrow> w url = Some soup \<Longrightarrow>
   crawl_step w c st =
     st\<lparr>page_urls :=
          (let urls = snd (process_posts c (select_posts soup) (all_dividends st, rest)) in
           case older_link_href soup of
             None \<Rightarrow> urls
           | Some next_url \<Rightarrow> if next_url \<notin> insert url (visited st) then urls @ [next_url] else urls),
        visited := insert url (visited st),
        all_dividends := fst (process_posts c (select_posts soup) (all_dividends st, rest)),
        page_count := page_count st + 1,
        fetched := fetched st @ [url],
        printed :=
          (if (page_count st + 1) mod 5 = 0
           then printed st @ [Scraped_pages (page_count st + 1)
                  (length (fst (process_posts c (select_posts soup) (all_dividends st, rest))))]
           else printed st)\<rparr>"
  by (auto simp: crawl_step_def Let_def split: prod.splits option.splits)

lemma crawl_reachable:
  "reachable w (cy - n) (n * 20) (initial_state u) (crawl w cy n u)"
  unfolding crawl_def by (rule crawl_loop_reachable [OF reachable.start])

subsection \<open>The example crawl, evaluated\<close>

lemma ex_state_1_eval:
  "ex_state_1 = \<lparr>page_urls = [''B''], visited = {''A''}, all_dividends = [ex_record_2024],
                 page_count = 1, fetched = [''A''], printed = []\<rparr>"
  unfolding ex_state_1_def by code_simp

lemma ex_state_2_eval:
  "ex_state_2 = \<lparr>page_urls = [''C''], visited = {''A'', ''B''}, all_dividends = [ex_record_2024, ex_record_2023],
                 page_count = 2, fetched = [''A'', ''B''], printed = []\<rparr>"
  unfolding ex_state_2_def ex_state_1_eval by code_simp

lemma ex_crawl_eval:
  "crawl ex_web 2025 5 ''A'' = \<lparr>page_urls = [], visited = {''A'', ''B'', ''C''}, all_dividends = [ex_record_2024, ex_record_2023],
                 page_count = 3, fetched = [''A'', ''B'', ''C''], printed = [Error_scraping ''C'']\<rparr>"
  by code_simp

subsection \<open>The claims about the crawl\<close>

text \<open>
  Claim C2. Every record in the accumulator \<^verbatim>\<open>all_dividends\<close> has the field
  \<^verbatim>\<open>Date_of_Announcement\<close>, in every state the loop reaches from the initial state, that
  is after every iteration. A post whose extracted record lacks the field is discarded:
  the loop over the posts of a page gives the same result with and without it.
\<close>

theorem accumulator_records_have_announcement_date:
  assumes "reachable w c m (initial_state start_url) st"
  shows "(\<forall>d\<in>set (all_dividends st). map_of d ''Date_of_Announcement'' \<noteq> None)
       \<and> (\<forall>post d before after acc q.
            extract_dividend_data post = Some d \<and> map_of d ''Date_of_Announcement'' = None \<longrightarrow>
            process_posts c (before @ post # after) (acc, q) = process_posts c (before @ after) (acc, q))"
proof
  show "\<forall>d\<in>set (all_dividends st). map_of d ''Date_of_Announcement'' \<noteq> None"
    using reachable_has_date [OF assms] by (simp add: initial_state_def)
  show "\<forall>post d before after acc q.
            extract_dividend_data post = Some d \<and> map_of d ''Date_of_Announcement'' = None \<longrightarrow>
            process_posts c (before @ post # after) (acc, q) = process_posts c (before @ after) (acc, q)"
    by (auto intro!: process_posts_skip simp: dated_record_def)
qed

theorem accumulator_records_have_announcement_date_witness:
  "reachable ex_web (2025 - 5) (5 * 20) (initial_state ''A'') (crawl ex_web 2025 5 ''A'')
   \<and> list_all (\<lambda>d. map_of d ''Date_of_Announcement'' \<noteq> None) (all_dividends (crawl ex_web 2025 5 ''A''))
   \<and> map (\<lambda>d. map_of d ''Date_of_Announcement'') (all_dividends (crawl ex_web 2025 5 ''A''))
       = [Some ''05-Jun-2024'', Some ''10-Dec-2023'']
   \<and> extract_dividend_data ex_post_undated
       = Some [(''Post_Date'', ''08-Jun-2024''), (''Company_Code'', ''XYZ''),
               (''Company_Name'', ''Xyz PLC''), (''XD_Date'', ''TBA'')]
   \<and> process_posts (2025 - 5) ([ex_post_2023] @ ex_post_undated # [ex_post_2015]) ([], [''B''])
       = process_posts (2025 - 5) ([ex_post_2023] @ [ex_post_2015]) ([], [''B''])"
proof -
  have r: "reachable ex_web (2025 - 5) (5 * 20) (initial_state ''A'') (crawl ex_web 2025 5 ''A'')"
    by (rule crawl_reachable)
  have e: "extract_dividend_data ex_post_undated
       = Some [(''Post_Date'', ''08-Jun-2024''), (''Company_Code'', ''XYZ''),
               (''Company_Name'', ''Xyz PLC''), (''XD_Date'', ''TBA'')]"
    by code_simp
  have v: "map (\<lambda>d. map_of d ''Date_of_Announcement'') (all_dividends (crawl ex_web 2025 5 ''A''))
       = [Some ''05-Jun-2024'', Some ''10-Dec-2023'']"
    by (simp add: ex_crawl_eval ex_record_2024_def ex_record_2023_def)
  note t = accumulator_records_have_announcement_date [OF r]
  from t have "list_all (\<lambda>d. map_of d ''Date_of_Announcement'' \<noteq> None) (all_dividends (crawl ex_web 2025 5 ''A''))"
    by (simp add: list_all_iff)
  moreover have n: "map_of [(''Post_Date'', ''08-Jun-2024''), (''Company_Code'', ''XYZ''),
               (''Company_Name'', ''Xyz PLC''), (''XD_Date'', ''TBA'')] ''Date_of_Announcement'' = None"
    by simp
  have "process_posts (2025 - 5) ([ex_post_2023] @ ex_post_undated # [ex_post_2015]) ([], [''B''])
       = process_posts (2025 - 5) ([ex_post_2023] @ [ex_post_2015]) ([], [''B''])"
    by (rule t [THEN conjunct2, rule_format, OF conjI [OF e n]])
  ultimately show ?thesis using r e v by blast
qed

text \<open>
  Claim C3. For every start URL and every positive \<^verbatim>\<open>num_years\<close> the loop ends after
  some number \<open>k\<close> of iterations, in a state where the queue is empty or the page counter
  equals \<^verbatim>\<open>num_years * 20\<close>. In every state on the way the page counter is at most
  \<^verbatim>\<open>num_years * 20\<close> and equals the number of pages fetched so far.
\<close>

theorem crawl_terminates_within_ceiling:
  assumes "0 < num_years"
  shows "\<exists>k. (\<forall>j<k. loop_cond (num_years * 20)
                      ((crawl_step w (current_year - num_years) ^^ j) (initial_state start_url)))
           \<and> crawl w current_year num_years start_url =
               (crawl_step w (current_year - num_years) ^^ k) (initial_state start_url)
           \<and> (page_urls (crawl w current_year num_years start_url) = []
               \<or> page_count (crawl w current_year num_years start_url) = num_years * 20)
           \<and> (\<forall>j\<le>k. page_count ((crawl_step w (current_year - num_years) ^^ j) (initial_state start_url))
                        \<le> num_years * 20
                    \<and> int (length (fetched ((crawl_step w (current_year - num_years) ^^ j)
                                              (initial_state start_url))))
                        = page_count ((crawl_step w (current_year - num_years) ^^ j) (initial_state start_url)))"
proof -
  let ?c = "current_year - num_years" and ?m = "num_years * 20" and ?s0 = "initial_state start_url"
  from crawl_loop_iterates [of ?m w ?c ?s0] obtain k where k:
    "\<forall>j<k. loop_cond ?m ((crawl_step w ?c ^^ j) ?s0)"
    "\<not> loop_cond ?m ((crawl_step w ?c ^^ k) ?s0)"
    "crawl_loop w ?c ?m ?s0 = (crawl_step w ?c ^^ k) ?s0"
    by blast
  have inv0: "crawl_inv ?s0" and le0: "page_count ?s0 \<le> ?m"
    using assms by (simp_all add: crawl_inv_def initial_state_def)
  have reach: "reachable w ?c ?m ?s0 ((crawl_step w ?c ^^ j) ?s0)" if "j \<le> k" for j
    using that k(1) by (intro funpow_reachable) simp
  have bound: "page_count ((crawl_step w ?c ^^ j) ?s0) \<le> ?m
             \<and> int (length (fetched ((crawl_step w ?c ^^ j) ?s0))) = page_count ((crawl_step w ?c ^^ j) ?s0)"
    if "j \<le> k" for j
    using reachable_count_le [OF reach [OF that] le0] reachable_inv [OF reach [OF that] inv0]
    by (simp add: crawl_inv_def)
  have final: "page_urls (crawl w current_year num_years start_url) = []
             \<or> page_count (crawl w current_year num_years start_url) = ?m"
    using k(2) k(3) bound [of k] by (auto simp: crawl_def loop_cond_def)
  show ?thesis
    using k(1) k(3) final bound unfolding crawl_def by blast
qed

theorem crawl_terminates_within_ceiling_witness:
  "(0::int) < 5
   \<and> page_count (crawl ex_web 2025 5 ''A'') \<le> 5 * 20
   \<and> page_count (crawl ex_web 2025 5 ''A'') = 3
   \<and> fetched (crawl ex_web 2025 5 ''A'') = [''A'', ''B'', ''C'']
   \<and> page_urls (crawl ex_web 2025 5 ''A'') = []
   \<and> page_count (crawl ex_endless_web 2025 1 ''A'') = 1 * 20
   \<and> page_urls (crawl ex_endless_web 2025 1 ''A'') \<noteq> []"
proof -
  have pos: "(0::int) < 5" by simp
  from crawl_terminates_within_ceiling [OF pos, of ex_web 2025 "''A''"]
  obtain k where k: "crawl ex_web 2025 5 ''A'' = (crawl_step ex_web (2025 - 5) ^^ k) (initial_state ''A'')"
    "\<forall>j\<le>k. page_count ((crawl_step ex_web (2025 - 5) ^^ j) (initial_state ''A'')) \<le> 5 * 20
             \<and> int (length (fetched ((crawl_step ex_web (2025 - 5) ^^ j) (initial_state ''A''))))
                 = page_count ((crawl_step ex_web (2025 - 5) ^^ j) (initial_state ''A''))"
    by blast
  from k(2) have "page_count ((crawl_step ex_web (2025 - 5) ^^ k) (initial_state ''A'')) \<le> 5 * 20"
    by blast
  with k(1) have le: "page_count (crawl ex_web 2025 5 ''A'') \<le> 5 * 20" by simp
  have a: "page_count (crawl ex_web 2025 5 ''A'') = 3"
    and b: "fetched (crawl ex_web 2025 5 ''A'') = [''A'', ''B'', ''C'']"
    and c: "page_urls (crawl ex_web 2025 5 ''A'') = []"
    by (simp_all add: ex_crawl_eval)
  have d: "page_count (crawl ex_endless_web 2025 1 ''A'') = 1 * 20" by code_simp
  have e: "page_urls (crawl ex_endless_web 2025 1 ''A'') \<noteq> []" by code_simp
  from pos le a b c d e show ?thesis by blast
qed

text \<open>
  Claim C5. In an iteration that fetches a page on which some post has an announcement
  year strictly below the cutoff year, only the records of the posts before the first
  such post are appended (the posts after it are not processed), the queue is cleared,
  and the target of the page's older-posts link is then enqueued when there is one and
  it is not visited: the queue after the iteration holds that one URL, or nothing.
\<close>

theorem cutoff_clears_queue_then_older_link_is_enqueued:
  assumes "page_urls st = url # rest" and "url \<notin> visited st" and "w url = Some soup"
    and "list_ex (too_old c) (select_posts soup)"
  shows "all_dividends (crawl_step w c st) =
           all_dividends st @ in_range_records c (takeWhile (\<lambda>p. \<not> too_old c p) (select_posts soup))
       \<and> page_urls (crawl_step w c st) =
           (case older_link_href soup of
              None \<Rightarrow> []
            | Some next_url \<Rightarrow> if next_url \<notin> insert url (visited st) then [next_url] else [])"
  using assms
  by (simp add: step_fetched process_posts_char split: option.splits)

theorem cutoff_clears_queue_then_older_link_is_enqueued_witness:
  "page_urls (initial_state ''B'') = [''B'']
   \<and> ''B'' \<notin> visited (initial_state ''B'')
   \<and> ex_web ''B'' = Some ex_page_b
   \<and> list_ex (too_old 2020) (select_posts ex_page_b)
   \<and> select_posts ex_page_b = [ex_post_2023, ex_post_bad_date, ex_post_2015, ex_post_2024]
   \<and> map (\<lambda>d. map_of d ''Post_Date'') (all_dividends (crawl_step ex_web 2020 (initial_state ''B'')))
       = [Some ''12-Dec-2023'']
   \<and> page_urls (crawl_step ex_web 2020 (initial_state ''B'')) = [''C'']"
proof -
  have h1: "page_urls (initial_state ''B'') = [''B'']" by (simp add: initial_state_def)
  have h2: "''B'' \<notin> visited (initial_state ''B'')" by (simp add: initial_state_def)
  have h3: "ex_web ''B'' = Some ex_page_b" by (simp add: ex_web_def)
  have h4: "list_ex (too_old 2020) (select_posts ex_page_b)" by code_simp
  have h5: "select_posts ex_page_b = [ex_post_2023, ex_post_bad_date, ex_post_2015, ex_post_2024]"
    by code_simp
  note t = cutoff_clears_queue_then_older_link_is_enqueued [where w = ex_web, OF h1 h2 h3 h4]
  have "map (\<lambda>d. map_of d ''Post_Date'')
          (all_dividends (initial_state ''B'') @
           in_range_records 2020 (takeWhile (\<lambda>p. \<not> too_old 2020 p) (select_posts ex_page_b)))
        = [Some ''12-Dec-2023'']"
    by code_simp
  with t have a: "map (\<lambda>d. map_of d ''Post_Date'') (all_dividends (crawl_step ex_web 2020 (initial_state ''B'')))
       = [Some ''12-Dec-2023'']"
    by simp
  have "(case older_link_href ex_page_b of
              None \<Rightarrow> []
            | Some next_url \<Rightarrow> if next_url \<notin> insert ''B'' (visited (initial_state ''B'')) then [next_url] else [])
        = [''C'']"
    by code_simp
  with t have b: "page_urls (crawl_step ex_web 2020 (initial_state ''B'')) = [''C'']"
    by simp
  from h1 h2 h3 h4 h5 a b show ?thesis by blast
qed

text \<open>
  Claim C6. In every state the loop reaches from the initial state, no URL has been
  fetched twice, and the fetched URLs are the visited ones. A visited URL popped from the
  queue is skipped and changes nothing but the queue; an unvisited one is marked visited,
  counted and fetched; every URL in the queue after an iteration was in the queue before
  or is not visited.
\<close>

theorem no_url_fetched_twice:
  assumes "reachable w c m (initial_state start_url) st"
  shows "distinct (fetched st) \<and> set (fetched st) = visited st
       \<and> (\<forall>url rest. page_urls st = url # rest \<and> url \<in> visited st \<longrightarrow>
             crawl_step w c st = st\<lparr>page_urls := rest\<rparr>)
       \<and> (\<forall>url rest. page_urls st = url # rest \<and> url \<notin> visited st \<longrightarrow>
             url \<in> visited (crawl_step w c st) \<and> fetched (crawl_step w c st) = fetched st @ [url]
             \<and> page_count (crawl_step w c st) = page_count st + 1)
       \<and> (\<forall>u. u \<in> set (page_urls (crawl_step w c st)) \<longrightarrow>
             u \<in> set (tl (page_urls st)) \<or> u \<notin> visited (crawl_step w c st))"
proof -
  have "crawl_inv st"
    using reachable_inv [OF assms] by (simp add: crawl_inv_def initial_state_def)
  then have a: "distinct (fetched st) \<and> set (fetched st) = visited st"
    by (simp add: crawl_inv_def)
  have b: "\<forall>url rest. page_urls st = url # rest \<and> url \<in> visited st \<longrightarrow>
             crawl_step w c st = st\<lparr>page_urls := rest\<rparr>"
    by (simp add: step_visited)
  have c: "\<forall>url rest. page_urls st = url # rest \<and> url \<notin> visited st \<longrightarrow>
             url \<in> visited (crawl_step w c st) \<and> fetched (crawl_step w c st) = fetched st @ [url]
             \<and> page_count (crawl_step w c st) = page_count st + 1"
    by (auto simp: crawl_step_def Let_def split: option.splits prod.splits)
  have d: "\<forall>u. u \<in> set (page_urls (crawl_step w c st)) \<longrightarrow>
             u \<in> set (tl (page_urls st)) \<or> u \<notin> visited (crawl_step w c st)"
    by (auto simp: crawl_step_def Let_def process_posts_char split: list.splits option.splits prod.splits if_splits)
  from a b c d show ?thesis by blast
qed

theorem no_url_fetched_twice_witness:
  "reachable ex_web (2025 - 5) (5 * 20) (initial_state ''A'') (crawl ex_web 2025 5 ''A'')
   \<and> distinct (fetched (crawl ex_web 2025 5 ''A''))
   \<and> set (fetched (crawl ex_web 2025 5 ''A'')) = visited (crawl ex_web 2025 5 ''A'')
   \<and> fetched (crawl ex_web 2025 5 ''A'') = [''A'', ''B'', ''C'']"
proof -
  have r: "reachable ex_web (2025 - 5) (5 * 20) (initial_state ''A'') (crawl ex_web 2025 5 ''A'')"
    by (rule crawl_reachable)
  note t = no_url_fetched_twice [OF r]
  have b: "fetched (crawl ex_web 2025 5 ''A'') = [''A'', ''B'', ''C'']" by (simp add: ex_crawl_eval)
  from r t b show ?thesis by blast
qed

lemma step_keeps_visited:
  "u \<in> visited st \<Longrightarrow>
   u \<in> visited (crawl_step w c st) \<and> count_list (fetched (crawl_step w c st)) u = count_list (fetched st) u"
  by (auto simp: crawl_step_def Let_def split: list.splits option.splits prod.splits)

lemma reachable_keeps_visited:
  "reachable w c m st0 st \<Longrightarrow> u \<in> visited st0 \<Longrightarrow>
   u \<in> visited st \<and> count_list (fetched st) u = count_list (fetched st0) u"
proof (induction rule: reachable.induct)
  case start
  then show ?case by simp
next
  case (step st)
  then show ?case using step_keeps_visited [of u st w c] by simp
qed

lemma step_fetches_unvisited:
  "page_urls st = u # r \<Longrightarrow> u \<notin> visited st \<Longrightarrow> fetched (crawl_step w c st) = fetched st @ [u]"
  by (auto simp: crawl_step_def Let_def split: option.splits prod.splits)

lemma ex_pending_loop_eval:
  "fetched (crawl_loop ex_web 2000 100 ex_state_pending) = [''A'', ''C'', ''B'']"
  by code_simp

text \<open>
  Claim C9. In any state of the loop, when the fetch of the popped, unvisited URL raises,
  the iteration prints the error, removes the URL from the queue, marks it visited and
  counts it, and changes neither the accumulator nor the rest of the queue. When a
  further unvisited URL is queued and the page ceiling allows it, the loop goes on and
  the next iteration fetches that URL. In every state reached afterwards the failed URL
  is visited and has been fetched exactly once more than before the failure: it is not
  fetched again.
\<close>

theorem fetch_failure_is_not_fatal:
  assumes "page_urls st = url # rest" and "url \<notin> visited st" and "w url = None"
  shows "crawl_step w c st =
           st\<lparr>page_urls := rest, visited := insert url (visited st), page_count := page_count st + 1,
              fetched := fetched st @ [url], printed := printed st @ [Error_scraping url]\<rparr>
       \<and> (\<forall>next_url rest'. rest = next_url # rest' \<and> next_url \<notin> insert url (visited st)
              \<and> page_count st + 1 < m \<longrightarrow>
            fetched (crawl_step w c (crawl_step w c st)) = fetched st @ [url, next_url]
            \<and> crawl_loop w c m st = crawl_loop w c m (crawl_step w c (crawl_step w c st)))
       \<and> (\<forall>st'. reachable w c m (crawl_step w c st) st' \<longrightarrow>
            url \<in> visited st' \<and> count_list (fetched st') url = count_list (fetched st) url + 1)"
proof (intro conjI allI impI)
  show s: "crawl_step w c st =
           st\<lparr>page_urls := rest, visited := insert url (visited st), page_count := page_count st + 1,
              fetched := fetched st @ [url], printed := printed st @ [Error_scraping url]\<rparr>"
    using assms by (rule step_fetch_failed)
  {
    fix next_url rest'
    assume a: "rest = next_url # rest' \<and> next_url \<notin> insert url (visited st) \<and> page_count st + 1 < m"
    have p: "page_urls (crawl_step w c st) = next_url # rest'" using a by (simp add: s)
    have v: "next_url \<notin> visited (crawl_step w c st)" using a by (simp add: s)
    show "fetched (crawl_step w c (crawl_step w c st)) = fetched st @ [url, next_url]"
      using step_fetches_unvisited [OF p v] by (simp add: s)
    have l1: "loop_cond m st" using assms(1) a by (simp add: loop_cond_def)
    have l2: "loop_cond m (crawl_step w c st)" using a by (simp add: loop_cond_def s)
    have "crawl_loop w c m st = crawl_loop w c m (crawl_step w c st)"
      using l1 by (subst crawl_loop.simps) simp
    also have "\<dots> = crawl_loop w c m (crawl_step w c (crawl_step w c st))"
      using l2 by (subst crawl_loop.simps) simp
    finally show "crawl_loop w c m st = crawl_loop w c m (crawl_step w c (crawl_step w c st))" .
  }
  fix st' assume r: "reachable w c m (crawl_step w c st) st'"
  have "url \<in> visited (crawl_step w c st)" by (simp add: s)
  from reachable_keeps_visited [OF r this]
  show "url \<in> visited st'" and "count_list (fetched st') url = count_list (fetched st) url + 1"
    by (simp_all add: s)
qed

theorem fetch_failure_is_not_fatal_witness:
  "page_urls ex_state_pending = ''C'' # [''B'', ''C'']
   \<and> ''C'' \<notin> visited ex_state_pending
   \<and> ex_web ''C'' = None
   \<and> page_urls (crawl_step ex_web 2000 ex_state_pending) = [''B'', ''C'']
   \<and> all_dividends (crawl_step ex_web 2000 ex_state_pending) = all_dividends ex_state_pending
   \<and> printed (crawl_step ex_web 2000 ex_state_pending) = [Error_scraping ''C'']
   \<and> fetched (crawl_step ex_web 2000 (crawl_step ex_web 2000 ex_state_pending)) = [''A'', ''C'', ''B'']
   \<and> crawl_loop ex_web 2000 100 ex_state_pending
       = crawl_loop ex_web 2000 100 (crawl_step ex_web 2000 (crawl_step ex_web 2000 ex_state_pending))
   \<and> fetched (crawl_loop ex_web 2000 100 ex_state_pending) = [''A'', ''C'', ''B'']
   \<and> count_list (fetched (crawl_loop ex_web 2000 100 (crawl_step ex_web 2000 ex_state_pending))) ''C'' = 1"
proof -
  have h1: "page_urls ex_state_pending = ''C'' # [''B'', ''C'']" by (simp add: ex_state_pending_def)
  have h2: "''C'' \<notin> visited ex_state_pending" by (simp add: ex_state_pending_def)
  have h3: "ex_web ''C'' = None" by (simp add: ex_web_def)
  note t = fetch_failure_is_not_fatal [where w = ex_web and c = 2000 and m = 100, OF h1 h2 h3]
  note t1 = t [THEN conjunct1]
  note t2 = t [THEN conjunct2, THEN conjunct1, rule_format, of "''B''" "[''C'']"]
  note t3 = t [THEN conjunct2, THEN conjunct2, rule_format]
  have p: "page_urls (crawl_step ex_web 2000 ex_state_pending) = [''B'', ''C'']"
    and a: "all_dividends (crawl_step ex_web 2000 ex_state_pending) = all_dividends ex_state_pending"
    and o: "printed (crawl_step ex_web 2000 ex_state_pending) = [Error_scraping ''C'']"
    by (simp_all add: t1) (simp add: ex_state_pending_def)
  have n: "[''B'', ''C''] = ''B'' # [''C''] \<and> ''B'' \<notin> insert ''C'' (visited ex_state_pending)
           \<and> page_count ex_state_pending + 1 < 100"
    by (simp add: ex_state_pending_def)
  from t2 [OF n] have f: "fetched (crawl_step ex_web 2000 (crawl_step ex_web 2000 ex_state_pending)) = [''A'', ''C'', ''B'']"
    and g: "crawl_loop ex_web 2000 100 ex_state_pending
       = crawl_loop ex_web 2000 100 (crawl_step ex_web 2000 (crawl_step ex_web 2000 ex_state_pending))"
    by (simp_all add: ex_state_pending_def)
  have r: "reachable ex_web 2000 100 (crawl_step ex_web 2000 ex_state_pending)
              (crawl_loop ex_web 2000 100 (crawl_step ex_web 2000 ex_state_pending))"
    by (rule crawl_loop_reachable [OF reachable.start])
  from t3 [OF r] have c: "count_list (fetched (crawl_loop ex_web 2000 100 (crawl_step ex_web 2000 ex_state_pending))) ''C'' = 1"
    by (simp add: ex_state_pending_def)
  from h1 h2 h3 p a o f g ex_pending_loop_eval c show ?thesis by (intro conjI)
qed

text \<open>
  Claim C10. A post whose extracted announcement date \<^verbatim>\<open>strptime\<close> rejects (a string of
  the right shape that is no calendar date, such as \<^verbatim>\<open>31-Feb-2024\<close>) is skipped: the
  loop over the posts of a page gives the same accumulator and queue with and without
  it, so it is neither appended nor a stopping signal, and the posts after it are
  processed as before.
\<close>

theorem invalid_calendar_date_is_skipped:
  assumes "extract_dividend_data post = Some d" and "map_of d ''Date_of_Announcement'' = Some s"
    and "strptime s = Inl e"
  shows "process_posts c (before @ post # after) (acc, q) = process_posts c (before @ after) (acc, q)"
  using assms by (intro process_posts_skip) (simp add: dated_record_def)

theorem invalid_calendar_date_is_skipped_witness:
  "extract_dividend_data ex_post_bad_date
     = Some [(''Post_Date'', ''01-Mar-2024''), (''Company_Code'', ''GHI''),
             (''Company_Name'', ''Ghi PLC''), (''Date_of_Announcement'', ''31-Feb-2024'')]
   \<and> strptime ''31-Feb-2024'' = Inl ValueError
   \<and> process_posts 2020 ([ex_post_2023] @ ex_post_bad_date # [ex_post_2024]) ([], [''B''])
       = process_posts 2020 ([ex_post_2023] @ [ex_post_2024]) ([], [''B''])
   \<and> map (\<lambda>d. map_of d ''Post_Date'')
         (fst (process_posts 2020 ([ex_post_2023] @ ex_post_bad_date # [ex_post_2024]) ([], [''B''])))
       = [Some ''12-Dec-2023'', Some ''07-Jun-2024'']
   \<and> snd (process_posts 2020 ([ex_post_2023] @ ex_post_bad_date # [ex_post_2024]) ([], [''B''])) = [''B'']"
proof -
  have e: "extract_dividend_data ex_post_bad_date
     = Some [(''Post_Date'', ''01-Mar-2024''), (''Company_Code'', ''GHI''),
             (''Company_Name'', ''Ghi PLC''), (''Date_of_Announcement'', ''31-Feb-2024'')]"
    by code_simp
  have m: "map_of [(''Post_Date'', ''01-Mar-2024''), (''Company_Code'', ''GHI''),
             (''Company_Name'', ''Ghi PLC''), (''Date_of_Announcement'', ''31-Feb-2024'')]
             ''Date_of_Announcement'' = Some ''31-Feb-2024''"
    by simp
  have p: "strptime ''31-Feb-2024'' = Inl ValueError" by (simp add: strptime_eval)
  note t = invalid_calendar_date_is_skipped [OF e m p, of 2020 "[ex_post_2023]" "[ex_post_2024]" "[]" "[''B'']"]
  have v: "map (\<lambda>d. map_of d ''Post_Date'')
         (fst (process_posts 2020 ([ex_post_2023] @ [ex_post_2024]) ([], [''B''])))
       = [Some ''12-Dec-2023'', Some ''07-Jun-2024'']"
    and q: "snd (process_posts 2020 ([ex_post_2023] @ [ex_post_2024]) ([], [''B''])) = [''B'']"
    by code_simp+
  from e p t v q show ?thesis by simp
qed

section \<open>Properties of the patterns\<close>

declare rmatch.simps [simp del]

lemma in_rmatch_Chr: "s' \<in> set (rmatch (Chr c) s) \<longleftrightarrow> s = c # s'"
  by (cases s) (auto simp: rmatch.simps)

lemma in_rmatch_Cls: "s' \<in> set (rmatch (Cls P) s) \<longleftrightarrow> (\<exists>c. P c \<and> s = c # s')"
  by (cases s) (auto simp: rmatch.simps)

lemma in_rmatch_Cat:
  "s' \<in> set (rmatch (Cat a b) s) \<longleftrightarrow> (\<exists>s1. s1 \<in> set (rmatch a s) \<and> s' \<in> set (rmatch b s1))"
  by (auto simp: rmatch.simps)

lemma in_rmatch_Opt: "s' \<in> set (rmatch (Opt a) s) \<longleftrightarrow> s' \<in> set (rmatch a s) \<or> s' = s"
  by (auto simp: rmatch.simps)

lemma in_rmatch_Alt: "s' \<in> set (rmatch (Alt a b) s) \<longleftrightarrow> s' \<in> set (rmatch a s) \<or> s' \<in> set (rmatch b s)"
  by (auto simp: rmatch.simps)

lemma in_rmatch_Eps: "s' \<in> set (rmatch Eps s) \<longleftrightarrow> s' = s"
  by (auto simp: rmatch.simps)

lemma in_rmatch_Eos: "s' \<in> set (rmatch Eos s) \<longleftrightarrow> s' = s \<and> (s = [] \<or> s = [CHR 0x0A])"
  by (auto simp: rmatch.simps)

lemma in_rmatch_Star_Cls:
  "s' \<in> set (rmatch (Star (Cls P)) s) \<longleftrightarrow> (\<exists>w. s = w @ s' \<and> list_all P w)"
proof (induction s)
  case Nil
  show ?case by (auto simp: rmatch.simps)
next
  case (Cons x xs)
  show ?case
  proof (cases "P x")
    case True
    have "s' \<in> set (rmatch (Star (Cls P)) (x # xs)) \<longleftrightarrow> s' \<in> set (rmatch (Star (Cls P)) xs) \<or> s' = x # xs"
      using True by (subst rmatch.simps) (auto simp: rmatch.simps(2))
    also have "\<dots> \<longleftrightarrow> (\<exists>w. xs = w @ s' \<and> list_all P w) \<or> s' = x # xs"
      using Cons.IH by simp
    also have "\<dots> \<longleftrightarrow> (\<exists>w. x # xs = w @ s' \<and> list_all P w)"
      using True by (auto simp: Cons_eq_append_conv)
    finally show ?thesis .
  next
    case False
    then have "s' \<in> set (rmatch (Star (Cls P)) (x # xs)) \<longleftrightarrow> s' = x # xs"
      by (subst rmatch.simps) (auto simp: rmatch.simps(2))
    with False show ?thesis by (auto simp: Cons_eq_append_conv)
  qed
qed

lemma in_rmatch_Plus_Cls:
  "s' \<in> set (rmatch (Plus (Cls P)) s) \<longleftrightarrow> (\<exists>w. w \<noteq> [] \<and> s = w @ s' \<and> list_all P w)"
proof -
  have "s' \<in> set (rmatch (Plus (Cls P)) s) \<longleftrightarrow> (\<exists>c. P c \<and> (\<exists>w. s = c # w @ s' \<and> list_all P w))"
    unfolding Plus_def in_rmatch_Cat in_rmatch_Cls in_rmatch_Star_Cls by auto
  also have "\<dots> \<longleftrightarrow> (\<exists>w. w \<noteq> [] \<and> s = w @ s' \<and> list_all P w)"
  proof
    assume "\<exists>c. P c \<and> (\<exists>w. s = c # w @ s' \<and> list_all P w)"
    then obtain c w where "P c" "s = c # w @ s'" "list_all P w" by blast
    then have "c # w \<noteq> [] \<and> s = (c # w) @ s' \<and> list_all P (c # w)" by simp
    then show "\<exists>w. w \<noteq> [] \<and> s = w @ s' \<and> list_all P w" by blast
  next
    assume "\<exists>w. w \<noteq> [] \<and> s = w @ s' \<and> list_all P w"
    then obtain w where w: "w \<noteq> []" "s = w @ s'" "list_all P w" by blast
    then obtain c w' where "w = c # w'" by (cases w) auto
    with w show "\<exists>c. P c \<and> (\<exists>w. s = c # w @ s' \<and> list_all P w)" by auto
  qed
  finally show ?thesis .
qed

lemma in_rmatch_Lit: "s' \<in> set (rmatch (Lit l) s) \<longleftrightarrow> s = l @ s'"
  unfolding Lit_def
  by (induction l arbitrary: s) (auto simp: in_rmatch_Chr in_rmatch_Cat in_rmatch_Eps)

lemma in_rmatch_Rep_Cls:
  "s' \<in> set (rmatch (Rep n (Cls P)) s) \<longleftrightarrow> (\<exists>w. length w = n \<and> list_all P w \<and> s = w @ s')"
proof (induction n arbitrary: s)
  case 0
  show ?case by (auto simp: in_rmatch_Eps)
next
  case (Suc n)
  have "s' \<in> set (rmatch (Rep (Suc n) (Cls P)) s) \<longleftrightarrow>
        (\<exists>c. P c \<and> (\<exists>w. length w = n \<and> list_all P w \<and> s = c # w @ s'))"
    by (simp only: Rep.simps in_rmatch_Cat in_rmatch_Cls Suc.IH) auto
  also have "\<dots> \<longleftrightarrow> (\<exists>w. length w = Suc n \<and> list_all P w \<and> s = w @ s')"
    by (auto simp: length_Suc_conv) 
  finally show ?case .
qed

lemma re_search_Some_iff:
  "re_search p t = Some g \<longleftrightarrow>
     (\<exists>pre s gs. t = pre @ s \<and> re_match_at p s = g # gs
        \<and> (\<forall>pre' s'. t = pre' @ s' \<and> length pre' < length pre \<longrightarrow> re_match_at p s' = []))"
proof (induction t)
  case Nil
  show ?case by (auto split: list.splits)
next
  case (Cons c t)
  show ?case
  proof (cases "re_match_at p (c # t)")
    case (Cons g0 gs0)
    show ?thesis
    proof
      assume "re_search p (c # t) = Some g"
      with Cons have "g = g0" by simp
      with Cons show "\<exists>pre s gs. c # t = pre @ s \<and> re_match_at p s = g # gs
        \<and> (\<forall>pre' s'. c # t = pre' @ s' \<and> length pre' < length pre \<longrightarrow> re_match_at p s' = [])"
        by (intro exI [of _ "[]"] exI [of _ "c # t"] exI [of _ gs0]) simp
    next
      assume "\<exists>pre s gs. c # t = pre @ s \<and> re_match_at p s = g # gs
        \<and> (\<forall>pre' s'. c # t = pre' @ s' \<and> length pre' < length pre \<longrightarrow> re_match_at p s' = [])"
      then obtain pre s gs where h: "c # t = pre @ s" "re_match_at p s = g # gs"
        "\<forall>pre' s'. c # t = pre' @ s' \<and> length pre' < length pre \<longrightarrow> re_match_at p s' = []"
        by blast
      have "pre = []"
      proof (rule ccontr)
        assume "pre \<noteq> []"
        then have "length [] < length pre" by simp
        with h(3) have "re_match_at p (c # t) = []" by (metis append_Nil)
        with Cons show False by simp
      qed
      with h(1) have "s = c # t" by simp
      with h(2) Cons have "g = g0" by simp
      with Cons show "re_search p (c # t) = Some g" by simp
    qed
  next
    case Nil
    have "re_search p (c # t) = Some g \<longleftrightarrow> re_search p t = Some g"
      using Nil by simp
    also have "\<dots> \<longleftrightarrow> (\<exists>pre s gs. t = pre @ s \<and> re_match_at p s = g # gs
        \<and> (\<forall>pre' s'. t = pre' @ s' \<and> length pre' < length pre \<longrightarrow> re_match_at p s' = []))"
      by (rule Cons.IH)
    also have "\<dots> \<longleftrightarrow> (\<exists>pre s gs. c # t = pre @ s \<and> re_match_at p s = g # gs
        \<and> (\<forall>pre' s'. c # t = pre' @ s' \<and> length pre' < length pre \<longrightarrow> re_match_at p s' = []))"
      (is "?L \<longleftrightarrow> ?R")
    proof
      assume ?L
      then obtain pre s gs where h: "t = pre @ s" "re_match_at p s = g # gs"
        "\<forall>pre' s'. t = pre' @ s' \<and> length pre' < length pre \<longrightarrow> re_match_at p s' = []"
        by blast
      have "\<forall>pre' s'. c # t = pre' @ s' \<and> length pre' < length (c # pre) \<longrightarrow> re_match_at p s' = []"
      proof (intro allI impI)
        fix pre' s' assume a: "c # t = pre' @ s' \<and> length pre' < length (c # pre)"
        show "re_match_at p s' = []"
        proof (cases pre')
          case Nil
          with a have "s' = c # t" by simp
          with \<open>re_match_at p (c # t) = []\<close> show ?thesis by simp
        next
          case (Cons x pre'')
          with a have "t = pre'' @ s'" "length pre'' < length pre" by auto
          with h(3) show ?thesis by blast
        qed
      qed
      with h(1,2) show ?R
        by (intro exI [of _ "c # pre"] exI [of _ s] exI [of _ gs]) simp
    next
      assume ?R
      then obtain pre s gs where h: "c # t = pre @ s" "re_match_at p s = g # gs"
        "\<forall>pre' s'. c # t = pre' @ s' \<and> length pre' < length pre \<longrightarrow> re_match_at p s' = []"
        by blast
      from h(1,2) Nil obtain pre0 where p0: "pre = c # pre0" "t = pre0 @ s"
        by (cases pre) auto
      have "\<forall>pre' s'. t = pre' @ s' \<and> length pre' < length pre0 \<longrightarrow> re_match_at p s' = []"
      proof (intro allI impI)
        fix pre' s' assume "t = pre' @ s' \<and> length pre' < length pre0"
        then have "c # t = (c # pre') @ s' \<and> length (c # pre') < length pre"
          using p0 by simp
        with h(3) show "re_match_at p s' = []" by blast
      qed
      with p0 h(2) show ?L by blast
    qed
    finally show ?thesis .
  qed
qed

lemma re_search_None_iff:
  "re_search p t = None \<longleftrightarrow> (\<forall>pre s. t = pre @ s \<longrightarrow> re_match_at p s = [])"
proof (induction t)
  case Nil
  show ?case by (auto split: list.splits)
next
  case (Cons c t)
  show ?case
  proof (cases "re_match_at p (c # t)")
    case Nil
    then show ?thesis using Cons.IH by (auto simp: Cons_eq_append_conv)
  next
    case (Cons g gs)
    then have "re_search p (c # t) \<noteq> None" by simp
    moreover have "\<not> (\<forall>pre s. c # t = pre @ s \<longrightarrow> re_match_at p s = [])"
      using Cons by (metis append_Nil list.distinct(1))
    ultimately show ?thesis by blast
  qed
qed

lemma in_re_match_at:
  "x \<in> set (re_match_at (Pattern a g b) s) \<longleftrightarrow>
     (\<exists>s1 s2 s3. s1 \<in> set (rmatch a s) \<and> s2 \<in> set (rmatch g s1) \<and> s3 \<in> set (rmatch b s2)
        \<and> x = take (length s1 - length s2) s1)"
  by auto

lemma re_match_at_first:
  assumes "\<And>g. g \<in> set (re_match_at p s) \<longleftrightarrow> A g" and "\<And>g g'. A g \<Longrightarrow> A g' \<Longrightarrow> g = g'" and "A d"
  shows "\<exists>gs. re_match_at p s = d # gs"
proof (cases "re_match_at p s")
  case Nil
  with assms(1) [of d] assms(3) show ?thesis by simp
next
  case (Cons g0 gs)
  then have "g0 \<in> set (re_match_at p s)" by simp
  with assms(1) have "A g0" by blast
  with assms(2,3) have "g0 = d" by blast
  with Cons show ?thesis by simp
qed

lemma re_search_by_occurrence:
  assumes m: "\<And>s g. g \<in> set (re_match_at p s) \<longleftrightarrow> A s g"
    and u: "\<And>s g g'. A s g \<Longrightarrow> A s g' \<Longrightarrow> g = g'"
  shows "re_search p t = Some g \<longleftrightarrow>
           (\<exists>pre s. t = pre @ s \<and> A s g
              \<and> (\<forall>pre' s' g'. t = pre' @ s' \<and> A s' g' \<longrightarrow> length pre \<le> length pre'))"
proof
  assume "re_search p t = Some g"
  then obtain pre s gs where h: "t = pre @ s" "re_match_at p s = g # gs"
    "\<forall>pre' s'. t = pre' @ s' \<and> length pre' < length pre \<longrightarrow> re_match_at p s' = []"
    unfolding re_search_Some_iff by blast
  from h(2) have "g \<in> set (re_match_at p s)" by simp
  then have a: "A s g" using m by blast
  have "\<forall>pre' s' g'. t = pre' @ s' \<and> A s' g' \<longrightarrow> length pre \<le> length pre'"
  proof (intro allI impI)
    fix pre' s' g' assume x: "t = pre' @ s' \<and> A s' g'"
    then have "g' \<in> set (re_match_at p s')" using m by blast
    then have "re_match_at p s' \<noteq> []" by auto
    show "length pre \<le> length pre'"
    proof (rule ccontr)
      assume "\<not> length pre \<le> length pre'"
      then have "length pre' < length pre" by simp
      with h(3) x have "re_match_at p s' = []" by blast
      with \<open>re_match_at p s' \<noteq> []\<close> show False by simp
    qed
  qed
  with h(1) a show "\<exists>pre s. t = pre @ s \<and> A s g
              \<and> (\<forall>pre' s' g'. t = pre' @ s' \<and> A s' g' \<longrightarrow> length pre \<le> length pre')"
    by blast
next
  assume "\<exists>pre s. t = pre @ s \<and> A s g
              \<and> (\<forall>pre' s' g'. t = pre' @ s' \<and> A s' g' \<longrightarrow> length pre \<le> length pre')"
  then obtain pre s where h: "t = pre @ s" "A s g"
    "\<forall>pre' s' g'. t = pre' @ s' \<and> A s' g' \<longrightarrow> length pre \<le> length pre'"
    by blast
  from re_match_at_first [of p s "A s" g] m u h(2) obtain gs where gs: "re_match_at p s = g # gs"
    by blast
  have "\<forall>pre' s'. t = pre' @ s' \<and> length pre' < length pre \<longrightarrow> re_match_at p s' = []"
  proof (intro allI impI)
    fix pre' s' assume x: "t = pre' @ s' \<and> length pre' < length pre"
    show "re_match_at p s' = []"
    proof (cases "re_match_at p s'")
      case Nil then show ?thesis .
    next
      case (Cons g' gs')
      then have "g' \<in> set (re_match_at p s')" by simp
      then have "A s' g'" using m by blast
      with h(3) x have "length pre \<le> length pre'" by blast
      with x show ?thesis by simp
    qed
  qed
  with h(1) gs show "re_search p t = Some g"
    unfolding re_search_Some_iff by blast
qed

lemma re_search_none_by_occurrence:
  assumes m: "\<And>s g. g \<in> set (re_match_at p s) \<longleftrightarrow> A s g"
  shows "re_search p t = None \<longleftrightarrow> (\<forall>pre s g. t = pre @ s \<longrightarrow> \<not> A s g)"
proof -
  have "re_match_at p s = [] \<longleftrightarrow> (\<forall>g. \<not> A s g)" for s
  proof
    assume "re_match_at p s = []"
    then have "\<forall>g. g \<notin> set (re_match_at p s)" by simp
    then show "\<forall>g. \<not> A s g" using m by blast
  next
    assume a: "\<forall>g. \<not> A s g"
    show "re_match_at p s = []"
    proof (cases "re_match_at p s")
      case Nil then show ?thesis .
    next
      case (Cons g gs)
      then have "g \<in> set (re_match_at p s)" by simp
      with m a show ?thesis by blast
    qed
  qed
  then show ?thesis unfolding re_search_None_iff by blast
qed

subsection \<open>The patterns\<close>

lemma rmatch_CatI:
  "s1 \<in> set (rmatch a s) \<Longrightarrow> s' \<in> set (rmatch b s1) \<Longrightarrow> s' \<in> set (rmatch (Cat a b) s)"
  by (auto simp: in_rmatch_Cat)

lemma rmatch_ChrI: "s' \<in> set (rmatch (Chr c) (c # s'))"
  by (simp add: in_rmatch_Chr)

lemma rmatch_EpsI: "s' \<in> set (rmatch Eps s')"
  by (simp add: in_rmatch_Eps)

lemma rmatch_RepI:
  "length w = n \<Longrightarrow> list_all P w \<Longrightarrow> s' \<in> set (rmatch (Rep n (Cls P)) (w @ s'))"
  by (auto simp: in_rmatch_Rep_Cls)

lemma rmatch_StarI: "list_all P w \<Longrightarrow> s' \<in> set (rmatch (Star (Cls P)) (w @ s'))"
  by (auto simp: in_rmatch_Star_Cls)

lemma rmatch_PlusI: "w \<noteq> [] \<Longrightarrow> list_all P w \<Longrightarrow> s' \<in> set (rmatch (Plus (Cls P)) (w @ s'))"
  by (auto simp: in_rmatch_Plus_Cls)

lemma rmatch_LitI: "s' \<in> set (rmatch (Lit l) (l @ s'))"
  by (simp add: in_rmatch_Lit)

lemma rmatch_Opt_dashI:
  "dash = [] \<or> dash = ''-'' \<Longrightarrow> s' \<in> set (rmatch (Opt (Chr CHR ''-'')) (dash @ s'))"
  by (auto simp: in_rmatch_Opt in_rmatch_Chr)

lemma in_rmatch_date:
  "s' \<in> set (rmatch (Seq [Rep 2 (Cls is_digit), Chr sep, Rep 3 (Cls is_alpha), Chr sep, Rep 4 (Cls is_digit)]) s)
     \<longleftrightarrow> (\<exists>d. s = d @ s' \<and> is_date_token sep d)"
  (is "?L \<longleftrightarrow> ?R")
proof
  assume ?L
  then obtain dd mon yyyy where
    "length dd = 2" "list_all is_digit dd" "length mon = 3" "list_all is_alpha mon"
    "length yyyy = 4" "list_all is_digit yyyy" "s = dd @ sep # mon @ sep # yyyy @ s'"
    unfolding Seq_def
    by (auto simp: in_rmatch_Cat in_rmatch_Rep_Cls in_rmatch_Chr in_rmatch_Eps)
  then have "s = (dd @ [sep] @ mon @ [sep] @ yyyy) @ s' \<and> is_date_token sep (dd @ [sep] @ mon @ [sep] @ yyyy)"
    unfolding is_date_token_def by auto
  then show ?R by blast
next
  assume ?R
  then obtain dd mon yyyy where
    "length dd = 2" "list_all is_digit dd" "length mon = 3" "list_all is_alpha mon"
    "length yyyy = 4" "list_all is_digit yyyy" "s = dd @ sep # mon @ sep # yyyy @ s'"
    unfolding is_date_token_def by auto
  then show ?L
    unfolding Seq_def
    by (auto intro!: rmatch_CatI rmatch_RepI rmatch_ChrI rmatch_EpsI)
qed

lemma in_rmatch_label_sep:
  "s' \<in> set (rmatch rx_label_sep s) \<longleftrightarrow> (\<exists>u. s = u @ s' \<and> label_sep u)"
  (is "?L \<longleftrightarrow> ?R")
proof
  assume ?L
  then obtain ws1 s1 s2 ws2 where h:
    "list_all is_space ws1" "s = ws1 @ s1" "s1 = CHR ''-'' # s2 \<or> s2 = s1" "s2 = ws2 @ s'"
    "list_all is_space ws2"
    unfolding rx_label_sep_def Seq_def
    by (auto simp: in_rmatch_Cat in_rmatch_Star_Cls in_rmatch_Chr in_rmatch_Eps in_rmatch_Opt)
  from h(3) obtain dash where d: "s1 = dash @ s2" "dash = [] \<or> dash = ''-''"
    by auto
  from h d have "s = (ws1 @ dash @ ws2) @ s' \<and> label_sep (ws1 @ dash @ ws2)"
    unfolding label_sep_def by auto
  then show ?R by blast
next
  assume ?R
  then obtain u where u: "s = u @ s'" "label_sep u" by blast
  then obtain ws1 dash ws2 where h0:
    "list_all is_space ws1" "dash = [] \<or> dash = ''-''" "list_all is_space ws2" "u = ws1 @ dash @ ws2"
    unfolding label_sep_def by blast
  with u(1) have h: "list_all is_space ws1" "dash = [] \<or> dash = ''-''" "list_all is_space ws2"
    "s = ws1 @ dash @ ws2 @ s'"
    by simp_all
  have "s' \<in> set (rmatch (Cat (Star (Cls is_space)) (Cat (Opt (Chr CHR ''-''))
                 (Cat (Star (Cls is_space)) Eps))) (ws1 @ dash @ ws2 @ s'))"
    by (intro rmatch_CatI [OF rmatch_StarI [OF h(1)]] rmatch_CatI [OF rmatch_Opt_dashI [OF h(2)]]
          rmatch_CatI [OF rmatch_StarI [OF h(3)]] rmatch_EpsI)
  then show ?L by (simp add: rx_label_sep_def Seq_def h(4))
qed

lemma takeWhile_append_stop:
  "list_all P u \<Longrightarrow> v = [] \<or> \<not> P (hd v) \<Longrightarrow> takeWhile P (u @ v) = u"
proof (induction u)
  case Nil
  then show ?case by (cases v) auto
next
  case (Cons x u)
  then show ?case by simp
qed

lemma split_unique:
  assumes "u @ v = u' @ v'" and "list_all P u" and "list_all P u'"
    and "v = [] \<or> \<not> P (hd v)" and "v' = [] \<or> \<not> P (hd v')"
  shows "u = u' \<and> v = v'"
proof -
  have "takeWhile P (u @ v) = u" "takeWhile P (u' @ v') = u'"
    using assms(2-5) by (simp_all add: takeWhile_append_stop)
  with assms(1) have "u = u'" by metis
  with assms(1) show ?thesis by simp
qed

lemma is_date_token_length: "is_date_token sep d \<Longrightarrow> length d = 11"
  by (auto simp: is_date_token_def)

lemma is_date_token_hd: "is_date_token sep d \<Longrightarrow> d \<noteq> [] \<and> is_digit (hd d)"
  by (auto simp: is_date_token_def length_Suc_conv numeral_2_eq_2)

lemma label_sep_chars: "label_sep u \<Longrightarrow> list_all (\<lambda>c. is_space c \<or> c = CHR ''-'') u"
  by (auto simp: label_sep_def list_all_iff)

lemma digit_not_sep: "is_digit c \<Longrightarrow> \<not> (is_space c \<or> c = CHR ''-'')"
  by (auto simp: is_digit_def is_space_def)

lemma upper_not_space: "is_upper c \<Longrightarrow> \<not> is_space c"
  by (auto simp: is_upper_def is_space_def upper_chars_def)

lemma dash_not_space_upper: "\<not> is_space CHR ''-''" "\<not> is_upper CHR ''-''"
  by (auto simp: is_upper_def is_space_def upper_chars_def)

subsection \<open>The title date\<close>

lemma in_match_post_date:
  "g \<in> set (re_match_at pat_post_date s) \<longleftrightarrow> date_token_at s g"
  unfolding pat_post_date_def rx_date_dashed_def in_re_match_at in_rmatch_date in_rmatch_Eps
    date_token_at_def
  by auto

lemma date_token_at_unique: "date_token_at s g \<Longrightarrow> date_token_at s g' \<Longrightarrow> g = g'"
  unfolding date_token_at_def
  by (auto dest!: is_date_token_length simp: append_eq_append_conv)

subsection \<open>The XD date\<close>

lemma in_match_xd_date:
  "g \<in> set (re_match_at pat_xd_date s) \<longleftrightarrow> xd_date_at s g"
  (is "?L \<longleftrightarrow> ?R")
proof
  assume ?L
  then obtain s1 s2 where m:
    "s1 \<in> set (rmatch (Cat (Lit ''XD:'') rx_label_sep) s)"
    "s2 \<in> set (rmatch rx_date_dotted s1)" "g = take (length s1 - length s2) s1"
    unfolding pat_xd_date_def in_re_match_at by blast
  from m(1) obtain u where u: "s = ''XD:'' @ u @ s1" "label_sep u"
    unfolding in_rmatch_Cat in_rmatch_Lit in_rmatch_label_sep by blast
  from m(2) obtain d where d: "s1 = d @ s2" "is_date_token CHR ''.'' d"
    unfolding rx_date_dotted_def in_rmatch_date by blast
  from m(3) d(1) have "g = d" by simp
  with u d show ?R unfolding xd_date_at_def by blast
next
  assume ?R
  then obtain u rest where h: "s = ''XD:'' @ u @ g @ rest" "label_sep u" "is_date_token CHR ''.'' g"
    unfolding xd_date_at_def by blast
  have 1: "g @ rest \<in> set (rmatch (Cat (Lit ''XD:'') rx_label_sep) s)"
    unfolding in_rmatch_Cat in_rmatch_Lit in_rmatch_label_sep using h(1,2) by blast
  have 2: "rest \<in> set (rmatch rx_date_dotted (g @ rest))"
    unfolding rx_date_dotted_def in_rmatch_date using h(3) by blast
  have 3: "rest \<in> set (rmatch Eps rest)" by (rule rmatch_EpsI)
  have "g = take (length (g @ rest) - length rest) (g @ rest)" by simp
  with 1 2 3 show ?L unfolding pat_xd_date_def in_re_match_at by blast
qed

lemma xd_date_at_unique:
  assumes "xd_date_at s d" and "xd_date_at s d'"
  shows "d = d'"
proof -
  from assms obtain u rest u' rest' where h:
    "s = ''XD:'' @ u @ d @ rest" "label_sep u" "is_date_token CHR ''.'' d"
    "s = ''XD:'' @ u' @ d' @ rest'" "label_sep u'" "is_date_token CHR ''.'' d'"
    unfolding xd_date_at_def by blast
  let ?P = "\<lambda>c. is_space c \<or> c = CHR ''-''"
  have "u @ (d @ rest) = u' @ (d' @ rest')" using h(1,4) by simp
  moreover have "list_all ?P u" "list_all ?P u'" using h(2,5) by (simp_all add: label_sep_chars)
  moreover have "d @ rest = [] \<or> \<not> ?P (hd (d @ rest))"
    using is_date_token_hd [OF h(3)] digit_not_sep by auto
  moreover have "d' @ rest' = [] \<or> \<not> ?P (hd (d' @ rest'))"
    using is_date_token_hd [OF h(6)] digit_not_sep by auto
  ultimately have "d @ rest = d' @ rest'" using split_unique by blast
  with is_date_token_length [OF h(3)] is_date_token_length [OF h(6)] show ?thesis
    by (simp add: append_eq_append_conv)
qed

subsection \<open>XD: TBA\<close>

lemma re_match_at_Eps_Nil:
  "re_match_at (Pattern r Eps Eps) s = [] \<longleftrightarrow> (\<forall>s'. s' \<notin> set (rmatch r s))"
proof -
  have "re_match_at (Pattern r Eps Eps) s = [] \<longleftrightarrow> rmatch r s = []"
    by (simp add: rmatch.simps(8))
  also have "\<dots> \<longleftrightarrow> (\<forall>s'. s' \<notin> set (rmatch r s))"
    by (cases "rmatch r s") auto
  finally show ?thesis .
qed

lemma re_find_iff: "re_find r t \<longleftrightarrow> (\<exists>pre s s'. t = pre @ s \<and> s' \<in> set (rmatch r s))"
proof -
  have "re_find r t \<longleftrightarrow> \<not> (\<forall>pre s. t = pre @ s \<longrightarrow> re_match_at (Pattern r Eps Eps) s = [])"
    unfolding re_find_def re_search_None_iff ..
  also have "\<dots> \<longleftrightarrow> \<not> (\<forall>pre s. t = pre @ s \<longrightarrow> (\<forall>s'. s' \<notin> set (rmatch r s)))"
    unfolding re_match_at_Eps_Nil ..
  also have "\<dots> \<longleftrightarrow> (\<exists>pre s s'. t = pre @ s \<and> s' \<in> set (rmatch r s))"
    by blast
  finally show ?thesis .
qed

lemma in_rmatch_labelled:
  "s' \<in> set (rmatch (Seq [Lit l, rx_label_sep, Lit k]) s) \<longleftrightarrow> (\<exists>u. s = l @ u @ k @ s' \<and> label_sep u)"
proof
  assume "s' \<in> set (rmatch (Seq [Lit l, rx_label_sep, Lit k]) s)"
  then obtain s1 s2 s3 where m: "s1 \<in> set (rmatch (Lit l) s)" "s2 \<in> set (rmatch rx_label_sep s1)"
    "s3 \<in> set (rmatch (Lit k) s2)" "s' \<in> set (rmatch Eps s3)"
    unfolding Seq_def foldr.simps o_apply id_apply in_rmatch_Cat by blast
  from m(1) have 1: "s = l @ s1" by (simp add: in_rmatch_Lit)
  from m(2) obtain u where 2: "s1 = u @ s2" "label_sep u" unfolding in_rmatch_label_sep by blast
  from m(3) have 3: "s2 = k @ s3" by (simp add: in_rmatch_Lit)
  from m(4) have 4: "s' = s3" by (simp add: in_rmatch_Eps)
  from 1 2 3 4 have "s = l @ u @ k @ s' \<and> label_sep u" by simp
  then show "\<exists>u. s = l @ u @ k @ s' \<and> label_sep u" by blast
next
  assume "\<exists>u. s = l @ u @ k @ s' \<and> label_sep u"
  then obtain u where h: "s = l @ u @ k @ s'" "label_sep u" by blast
  have 1: "u @ k @ s' \<in> set (rmatch (Lit l) s)" unfolding h(1) by (rule rmatch_LitI)
  have 2: "k @ s' \<in> set (rmatch rx_label_sep (u @ k @ s'))"
    unfolding in_rmatch_label_sep using h(2) by blast
  have 3: "s' \<in> set (rmatch (Lit k) (k @ s'))" by (rule rmatch_LitI)
  have 4: "s' \<in> set (rmatch Eps s')" by (rule rmatch_EpsI)
  show "s' \<in> set (rmatch (Seq [Lit l, rx_label_sep, Lit k]) s)"
    unfolding Seq_def foldr.simps o_apply id_apply
    by (rule rmatch_CatI [OF 1 rmatch_CatI [OF 2 rmatch_CatI [OF 3 4]]])
qed

lemma re_find_labelled:
  "re_find (Seq [Lit l, rx_label_sep, Lit k]) t \<longleftrightarrow>
     (\<exists>pre s. t = pre @ s \<and> (\<exists>u rest. s = l @ u @ k @ rest \<and> label_sep u))"
  unfolding re_find_iff in_rmatch_labelled by blast

lemma re_find_xd_tba: "re_find rx_xd_tba t \<longleftrightarrow> (\<exists>pre s. t = pre @ s \<and> xd_tba_at s)"
  unfolding rx_xd_tba_def xd_tba_at_def by (rule re_find_labelled)

subsection \<open>The company code\<close>

lemma in_match_company_code:
  "g \<in> set (re_match_at pat_company_code s) \<longleftrightarrow> dash_code_at s g"
  (is "?L \<longleftrightarrow> ?R")
proof
  assume ?L
  then obtain s1 s2 s3 where m:
    "s1 \<in> set (rmatch (Cat (Chr CHR ''-'') (Plus (Cls is_space))) s)"
    "s2 \<in> set (rmatch (Plus (Cls is_upper)) s1)"
    "s3 \<in> set (rmatch (Cat (Star (Cls is_space)) Eos) s2)"
    "g = take (length s1 - length s2) s1"
    unfolding pat_company_code_def in_re_match_at by blast
  from m(1) obtain ws where ws: "s = ''-'' @ ws @ s1" "ws \<noteq> []" "list_all is_space ws"
    unfolding in_rmatch_Cat in_rmatch_Chr in_rmatch_Plus_Cls by auto
  from m(2) obtain c where c: "s1 = c @ s2" "c \<noteq> []" "list_all is_upper c"
    unfolding in_rmatch_Plus_Cls by blast
  from m(3) obtain ws' where t: "s2 = ws' @ s3" "list_all is_space ws'" "s3 = [] \<or> s3 = [CHR 0x0A]"
    unfolding in_rmatch_Cat in_rmatch_Star_Cls in_rmatch_Eos by blast
  from t have "list_all is_space s2" by (auto simp: is_space_def)
  moreover from m(4) c(1) have "g = c" by simp
  ultimately show ?R unfolding dash_code_at_def using ws c by blast
next
  assume ?R
  then obtain ws ws' where h:
    "s = ''-'' @ ws @ g @ ws'" "ws \<noteq> []" "list_all is_space ws" "g \<noteq> []" "list_all is_upper g"
    "list_all is_space ws'"
    unfolding dash_code_at_def by blast
  have "ws @ g @ ws' \<in> set (rmatch (Chr CHR ''-'') s)"
    unfolding h(1) by (simp add: in_rmatch_Chr)
  moreover have "g @ ws' \<in> set (rmatch (Plus (Cls is_space)) (ws @ g @ ws'))"
    using h(2,3) by (rule rmatch_PlusI)
  ultimately have 1: "g @ ws' \<in> set (rmatch (Cat (Chr CHR ''-'') (Plus (Cls is_space))) s)"
    by (rule rmatch_CatI)
  have 2: "ws' \<in> set (rmatch (Plus (Cls is_upper)) (g @ ws'))"
    using h(4,5) by (rule rmatch_PlusI)
  have "[] \<in> set (rmatch (Star (Cls is_space)) (ws' @ []))"
    using h(6) by (rule rmatch_StarI)
  moreover have "[] \<in> set (rmatch Eos [])" by (simp add: in_rmatch_Eos)
  ultimately have 3: "[] \<in> set (rmatch (Cat (Star (Cls is_space)) Eos) ws')"
    by (auto intro: rmatch_CatI)
  have "g = take (length (g @ ws') - length ws') (g @ ws')" by simp
  with 1 2 3 show ?L unfolding pat_company_code_def in_re_match_at by blast
qed

lemma dash_code_at_unique:
  assumes "dash_code_at s c" and "dash_code_at s c'"
  shows "c = c'"
proof -
  from assms obtain ws ws' ws1 ws1' where h:
    "s = ''-'' @ ws @ c @ ws'" "list_all is_space ws" "c \<noteq> []" "list_all is_upper c" "list_all is_space ws'"
    "s = ''-'' @ ws1 @ c' @ ws1'" "list_all is_space ws1" "c' \<noteq> []" "list_all is_upper c'" "list_all is_space ws1'"
    unfolding dash_code_at_def by blast
  have a: "c @ ws' = [] \<or> \<not> is_space (hd (c @ ws'))"
    using h(3,4) upper_not_space by (cases c) auto
  have b: "c' @ ws1' = [] \<or> \<not> is_space (hd (c' @ ws1'))"
    using h(8,9) upper_not_space by (cases c') auto
  have "ws @ (c @ ws') = ws1 @ (c' @ ws1')" using h(1,6) by simp
  from split_unique [OF this h(2) h(7) a b] have e: "c @ ws' = c' @ ws1'" by simp
  have "ws' = [] \<or> \<not> is_upper (hd ws')"
    using h(5) upper_not_space by (cases ws') auto
  moreover have "ws1' = [] \<or> \<not> is_upper (hd ws1')"
    using h(10) upper_not_space by (cases ws1') auto
  ultimately show ?thesis
    using split_unique [OF e h(4) h(9)] by simp
qed

lemma dash_code_at_position:
  assumes "pre @ s = pre' @ s'" and "dash_code_at s c" and "dash_code_at s' c'"
  shows "length pre \<le> length pre'"
proof (rule ccontr)
  assume "\<not> length pre \<le> length pre'"
  then have lt: "length pre' < length pre" by simp
  with assms(1) obtain x where x: "x \<noteq> []" "s' = x @ s"
    by (auto simp: append_eq_append_conv2) 
  from assms(2) have "s \<noteq> [] \<and> hd s = CHR ''-''" unfolding dash_code_at_def by auto
  with x have "CHR ''-'' \<in> set (tl s')"
    by (cases x; cases s) auto
  moreover from assms(3) have "\<forall>ch\<in>set (tl s'). is_space ch \<or> is_upper ch"
    unfolding dash_code_at_def by (auto simp: list_all_iff)
  ultimately show False using dash_not_space_upper by blast
qed

lemma search_company_code_Some:
  "re_search pat_company_code title = Some c \<longleftrightarrow> ends_with_dash_code title c"
proof -
  have "re_search pat_company_code title = Some c \<longleftrightarrow>
          (\<exists>pre s. title = pre @ s \<and> dash_code_at s c
              \<and> (\<forall>pre' s' g'. title = pre' @ s' \<and> dash_code_at s' g' \<longrightarrow> length pre \<le> length pre'))"
    by (rule re_search_by_occurrence [OF in_match_company_code dash_code_at_unique])
  also have "\<dots> \<longleftrightarrow> (\<exists>pre s. title = pre @ s \<and> dash_code_at s c)"
  proof
    assume "\<exists>pre s. title = pre @ s \<and> dash_code_at s c
              \<and> (\<forall>pre' s' g'. title = pre' @ s' \<and> dash_code_at s' g' \<longrightarrow> length pre \<le> length pre')"
    then show "\<exists>pre s. title = pre @ s \<and> dash_code_at s c" by blast
  next
    assume "\<exists>pre s. title = pre @ s \<and> dash_code_at s c"
    then obtain pre s where h: "title = pre @ s" "dash_code_at s c" by blast
    have "\<forall>pre' s' g'. title = pre' @ s' \<and> dash_code_at s' g' \<longrightarrow> length pre \<le> length pre'"
    proof (intro allI impI)
      fix pre' s' g' assume a: "title = pre' @ s' \<and> dash_code_at s' g'"
      with h(1) have "pre @ s = pre' @ s'" by simp
      from dash_code_at_position [OF this h(2)] a show "length pre \<le> length pre'" by blast
    qed
    with h show "\<exists>pre s. title = pre @ s \<and> dash_code_at s c
              \<and> (\<forall>pre' s' g'. title = pre' @ s' \<and> dash_code_at s' g' \<longrightarrow> length pre \<le> length pre')"
      by blast
  qed
  finally show ?thesis unfolding ends_with_dash_code_def .
qed

lemma search_company_code_None:
  "re_search pat_company_code title = None \<longleftrightarrow> (\<forall>c. \<not> ends_with_dash_code title c)"
proof -
  have "re_search pat_company_code title = None \<longleftrightarrow> (\<forall>pre s g. title = pre @ s \<longrightarrow> \<not> dash_code_at s g)"
    by (rule re_search_none_by_occurrence [OF in_match_company_code])
  then show ?thesis unfolding ends_with_dash_code_def by blast
qed

section \<open>Properties of \<^verbatim>\<open>extract_dividend_data\<close>\<close>

lemma map_of_update_other: "k' \<noteq> k \<Longrightarrow> map_of (AList.update k v al) k' = map_of al k'"
  by (simp add: update_conv')

lemma map_of_update_same: "map_of (AList.update k v al) k = Some v"
  by (simp add: update_conv')

lemma map_of_set_company_code:
  "map_of (set_company_code title data) k =
     (if k = ''Company_Code'' \<and> re_search pat_company_code title \<noteq> None
      then re_search pat_company_code title else map_of data k)"
  by (auto simp: set_company_code_def update_conv' split: option.splits)

lemma map_of_set_company_name_other:
  "k \<noteq> ''Company_Name'' \<Longrightarrow> map_of (set_company_name content data) k = map_of data k"
  by (auto simp: set_company_name_def update_conv' split: list.splits)

lemma map_of_set_announcement_date_other:
  "k \<noteq> ''Date_of_Announcement'' \<Longrightarrow> map_of (set_announcement_date content data) k = map_of data k"
  by (auto simp: set_announcement_date_def update_conv' split: option.splits)

lemma map_of_set_xd_date:
  "map_of (set_xd_date content data) k =
     (if k = ''XD_Date''
      then (case re_search pat_xd_date content of
              Some d \<Rightarrow> Some (replace_char CHR ''.'' CHR ''-'' d)
            | None \<Rightarrow> if re_find rx_xd_tba content then Some ''TBA'' else map_of data k)
      else map_of data k)"
  by (auto simp: set_xd_date_def update_conv' split: option.splits)

lemma map_of_set_financial_year_other:
  "k \<noteq> ''Financial_Year'' \<Longrightarrow> map_of (set_financial_year content data) k = map_of data k"
  by (auto simp: set_financial_year_def update_conv' split: option.splits)

lemma map_of_set_dividend_rate_other:
  "k \<noteq> ''Dividend_Rate'' \<Longrightarrow> map_of (set_dividend_rate content data) k = map_of data k"
  by (auto simp: set_dividend_rate_def update_conv' split: option.splits)

lemma extract_Some_iff:
  "extract_dividend_data post = Some data \<longleftrightarrow>
     (\<exists>title tok. title_of post = Some title \<and> re_search pat_post_date title = Some tok
        \<and> data = set_dividend_rate (get_text post)
                   (set_financial_year (get_text post)
                     (set_xd_date (get_text post)
                       (set_announcement_date (get_text post)
                         (set_company_name (get_text post)
                           (set_company_code title (AList.update ''Post_Date'' tok [])))))))"
  by (auto simp: extract_dividend_data_def title_of_def Let_def split: option.splits)

lemma extract_None_iff:
  "extract_dividend_data post = None \<longleftrightarrow>
     (title_of post = None \<or> (\<exists>title. title_of post = Some title \<and> re_search pat_post_date title = None))"
  by (auto simp: extract_dividend_data_def title_of_def Let_def split: option.splits)

lemma extract_fields:
  assumes "extract_dividend_data post = Some data"
  obtains title tok where "title_of post = Some title" "re_search pat_post_date title = Some tok"
    "map_of data ''Post_Date'' = Some tok"
    "map_of data ''Company_Code'' = re_search pat_company_code title"
    "map_of data ''XD_Date'' =
       (case re_search pat_xd_date (get_text post) of
          Some d \<Rightarrow> Some (replace_char CHR ''.'' CHR ''-'' d)
        | None \<Rightarrow> if re_find rx_xd_tba (get_text post) then Some ''TBA'' else None)"
proof -
  from assms obtain title tok where h: "title_of post = Some title" "re_search pat_post_date title = Some tok"
    "data = set_dividend_rate (get_text post)
                   (set_financial_year (get_text post)
                     (set_xd_date (get_text post)
                       (set_announcement_date (get_text post)
                         (set_company_name (get_text post)
                           (set_company_code title (AList.update ''Post_Date'' tok []))))))"
    unfolding extract_Some_iff by blast
  have 1: "map_of data ''Post_Date'' = Some tok"
    unfolding h(3)
    by (simp add: map_of_set_dividend_rate_other map_of_set_financial_year_other map_of_set_xd_date
          map_of_set_announcement_date_other map_of_set_company_name_other map_of_set_company_code
          update_conv')
  have 2: "map_of data ''Company_Code'' = re_search pat_company_code title"
    unfolding h(3)
    by (simp add: map_of_set_dividend_rate_other map_of_set_financial_year_other map_of_set_xd_date
          map_of_set_announcement_date_other map_of_set_company_name_other map_of_set_company_code
          update_conv')
  have 3: "map_of data ''XD_Date'' =
       (case re_search pat_xd_date (get_text post) of
          Some d \<Rightarrow> Some (replace_char CHR ''.'' CHR ''-'' d)
        | None \<Rightarrow> if re_find rx_xd_tba (get_text post) then Some ''TBA'' else None)"
    unfolding h(3)
    by (simp add: map_of_set_dividend_rate_other map_of_set_financial_year_other map_of_set_xd_date
          map_of_set_announcement_date_other map_of_set_company_name_other map_of_set_company_code
          update_conv' split: option.splits)
  from h(1,2) 1 2 3 show ?thesis by (rule that)
qed

lemma search_post_date_Some:
  "re_search pat_post_date title = Some tok \<longleftrightarrow>
     (\<exists>pre rest. title = pre @ tok @ rest \<and> is_date_token CHR ''-'' tok
        \<and> (\<forall>pre' tok' rest'. title = pre' @ tok' @ rest' \<and> is_date_token CHR ''-'' tok'
               \<longrightarrow> length pre \<le> length pre'))"
proof -
  have "re_search pat_post_date title = Some tok \<longleftrightarrow>
          (\<exists>pre s. title = pre @ s \<and> date_token_at s tok
             \<and> (\<forall>pre' s' g'. title = pre' @ s' \<and> date_token_at s' g' \<longrightarrow> length pre \<le> length pre'))"
    by (rule re_search_by_occurrence [OF in_match_post_date date_token_at_unique])
  also have "\<dots> \<longleftrightarrow> (\<exists>pre rest. title = pre @ tok @ rest \<and> is_date_token CHR ''-'' tok
        \<and> (\<forall>pre' tok' rest'. title = pre' @ tok' @ rest' \<and> is_date_token CHR ''-'' tok'
               \<longrightarrow> length pre \<le> length pre'))"
    unfolding date_token_at_def by blast
  finally show ?thesis .
qed

lemma search_post_date_None:
  "re_search pat_post_date title = None \<longleftrightarrow>
     (\<forall>pre tok rest. title = pre @ tok @ rest \<longrightarrow> \<not> is_date_token CHR ''-'' tok)"
proof -
  have "re_search pat_post_date title = None \<longleftrightarrow>
          (\<forall>pre s g. title = pre @ s \<longrightarrow> \<not> date_token_at s g)"
    by (rule re_search_none_by_occurrence [OF in_match_post_date])
  also have "\<dots> \<longleftrightarrow> (\<forall>pre tok rest. title = pre @ tok @ rest \<longrightarrow> \<not> is_date_token CHR ''-'' tok)"
    unfolding date_token_at_def by blast
  finally show ?thesis .
qed

lemma search_xd_date_Some:
  "re_search pat_xd_date t = Some d \<longleftrightarrow>
     (\<exists>pre s. t = pre @ s \<and> xd_date_at s d
        \<and> (\<forall>pre' s' d'. t = pre' @ s' \<and> xd_date_at s' d' \<longrightarrow> length pre \<le> length pre'))"
  by (rule re_search_by_occurrence [OF in_match_xd_date xd_date_at_unique])

lemma search_xd_date_None:
  "re_search pat_xd_date t = None \<longleftrightarrow> (\<forall>pre s d. t = pre @ s \<longrightarrow> \<not> xd_date_at s d)"
  by (rule re_search_none_by_occurrence [OF in_match_xd_date])

subsection \<open>The example posts, evaluated\<close>

lemma ex_extract_2024: "extract_dividend_data ex_post_2024 = Some ex_record_2024"
  by code_simp

lemma ex_extract_undated:
  "extract_dividend_data ex_post_undated
     = Some [(''Post_Date'', ''08-Jun-2024''), (''Company_Code'', ''XYZ''),
             (''Company_Name'', ''Xyz PLC''), (''XD_Date'', ''TBA'')]"
  by code_simp

lemma ex_extract_no_code:
  "extract_dividend_data ex_post_no_code
     = Some [(''Post_Date'', ''09-Jun-2024''), (''Company_Name'', ''Mno PLC''), (''XD_Date'', ''05-Jul-2024'')]"
  by code_simp

subsection \<open>The claims about the extractor\<close>

text \<open>
  Claim C4. \<^verbatim>\<open>extract_dividend_data\<close> returns \<^verbatim>\<open>None\<close> exactly when the fragment has no
  \<^verbatim>\<open>h3\<close> or \<^verbatim>\<open>h2\<close> element, or the first such element contains no link, or the text of
  its first link contains no token of the form two digits, dash, three letters, dash,
  four digits. Otherwise it returns a record, and the record's \<^verbatim>\<open>Post_Date\<close> is the first
  such token of the title.
\<close>

theorem extract_gating:
  "(extract_dividend_data post = None \<longleftrightarrow>
       find_first (tag_named [''h3'', ''h2'']) post = None
     \<or> (\<exists>title_elem. find_first (tag_named [''h3'', ''h2'']) post = Some title_elem
           \<and> find_first (tag_named [''a'']) title_elem = None)
     \<or> (\<exists>title_elem title_link. find_first (tag_named [''h3'', ''h2'']) post = Some title_elem
           \<and> find_first (tag_named [''a'']) title_elem = Some title_link
           \<and> (\<forall>pre tok rest. get_text title_link = pre @ tok @ rest \<longrightarrow> \<not> is_date_token CHR ''-'' tok)))
   \<and> (\<forall>data. extract_dividend_data post = Some data \<longrightarrow>
        (\<exists>title pre tok rest. title_of post = Some title \<and> title = pre @ tok @ rest
           \<and> is_date_token CHR ''-'' tok
           \<and> (\<forall>pre' tok' rest'. title = pre' @ tok' @ rest' \<and> is_date_token CHR ''-'' tok'
                  \<longrightarrow> length pre \<le> length pre')
           \<and> map_of data ''Post_Date'' = Some tok))"
proof
  show "extract_dividend_data post = None \<longleftrightarrow>
       find_first (tag_named [''h3'', ''h2'']) post = None
     \<or> (\<exists>title_elem. find_first (tag_named [''h3'', ''h2'']) post = Some title_elem
           \<and> find_first (tag_named [''a'']) title_elem = None)
     \<or> (\<exists>title_elem title_link. find_first (tag_named [''h3'', ''h2'']) post = Some title_elem
           \<and> find_first (tag_named [''a'']) title_elem = Some title_link
           \<and> (\<forall>pre tok rest. get_text title_link = pre @ tok @ rest \<longrightarrow> \<not> is_date_token CHR ''-'' tok))"
    unfolding search_post_date_None [symmetric]
    by (auto simp: extract_dividend_data_def Let_def split: option.splits)
  show "\<forall>data. extract_dividend_data post = Some data \<longrightarrow>
        (\<exists>title pre tok rest. title_of post = Some title \<and> title = pre @ tok @ rest
           \<and> is_date_token CHR ''-'' tok
           \<and> (\<forall>pre' tok' rest'. title = pre' @ tok' @ rest' \<and> is_date_token CHR ''-'' tok'
                  \<longrightarrow> length pre \<le> length pre')
           \<and> map_of data ''Post_Date'' = Some tok)"
  proof (intro allI impI)
    fix data assume "extract_dividend_data post = Some data"
    then obtain title tok where h: "title_of post = Some title" "re_search pat_post_date title = Some tok"
      "map_of data ''Post_Date'' = Some tok"
      by (rule extract_fields)
    from h(2) obtain pre rest where "title = pre @ tok @ rest" "is_date_token CHR ''-'' tok"
      "\<forall>pre' tok' rest'. title = pre' @ tok' @ rest' \<and> is_date_token CHR ''-'' tok'
               \<longrightarrow> length pre \<le> length pre'"
      unfolding search_post_date_Some by blast
    with h(1,3) show "\<exists>title pre tok rest. title_of post = Some title \<and> title = pre @ tok @ rest
           \<and> is_date_token CHR ''-'' tok
           \<and> (\<forall>pre' tok' rest'. title = pre' @ tok' @ rest' \<and> is_date_token CHR ''-'' tok'
                  \<longrightarrow> length pre \<le> length pre')
           \<and> map_of data ''Post_Date'' = Some tok"
      by blast
  qed
qed

theorem extract_gating_witness:
  "extract_dividend_data ex_fragment_no_heading = None
   \<and> extract_dividend_data ex_fragment_no_link = None
   \<and> extract_dividend_data ex_post_no_title_date = None
   \<and> extract_dividend_data ex_post_2024 = Some ex_record_2024
   \<and> title_of ex_post_2024 = Some ''07-Jun-2024 - ABC''
   \<and> (\<exists>pre tok rest. ''07-Jun-2024 - ABC'' = pre @ tok @ rest \<and> is_date_token CHR ''-'' tok
         \<and> map_of ex_record_2024 ''Post_Date'' = Some tok)
   \<and> map_of ex_record_2024 ''Post_Date'' = Some ''07-Jun-2024''"
proof -
  have a: "find_first (tag_named [''h3'', ''h2'']) ex_fragment_no_heading = None" by code_simp
  have b: "find_first (tag_named [''h3'', ''h2'']) ex_fragment_no_link = Some (Elem ''h2'' [] [Text ''07-Jun-2024 - ABC''])"
    "find_first (tag_named [''a'']) (Elem ''h2'' [] [Text ''07-Jun-2024 - ABC'']) = None"
    by code_simp+
  have c: "find_first (tag_named [''h3'', ''h2'']) ex_post_no_title_date
             = Some (Elem ''h3'' [(''class'', ''post-title entry-title'')] [Elem ''a'' [(''href'', ''#'')] [Text ''Dividend - ABC'']])"
    "find_first (tag_named [''a'']) (Elem ''h3'' [(''class'', ''post-title entry-title'')] [Elem ''a'' [(''href'', ''#'')] [Text ''Dividend - ABC'']])
             = Some (Elem ''a'' [(''href'', ''#'')] [Text ''Dividend - ABC''])"
    by code_simp+
  have "re_search pat_post_date (get_text (Elem ''a'' [(''href'', ''#'')] [Text ''Dividend - ABC''])) = None"
    by code_simp
  then have c3: "\<forall>pre tok rest. get_text (Elem ''a'' [(''href'', ''#'')] [Text ''Dividend - ABC'']) = pre @ tok @ rest
                    \<longrightarrow> \<not> is_date_token CHR ''-'' tok"
    unfolding search_post_date_None .
  have 1: "extract_dividend_data ex_fragment_no_heading = None"
    using extract_gating [of ex_fragment_no_heading] a by blast
  have 2: "extract_dividend_data ex_fragment_no_link = None"
    using extract_gating [of ex_fragment_no_link] b by blast
  have 3: "extract_dividend_data ex_post_no_title_date = None"
    using extract_gating [of ex_post_no_title_date] c c3 by blast
  have t: "title_of ex_post_2024 = Some ''07-Jun-2024 - ABC''" by code_simp
  from extract_gating [of ex_post_2024] ex_extract_2024 t
  have 4: "\<exists>pre tok rest. ''07-Jun-2024 - ABC'' = pre @ tok @ rest \<and> is_date_token CHR ''-'' tok
         \<and> map_of ex_record_2024 ''Post_Date'' = Some tok"
    by (metis option.inject)
  have 5: "map_of ex_record_2024 ''Post_Date'' = Some ''07-Jun-2024''"
    by (simp add: ex_record_2024_def)
  from 1 2 3 4 5 t ex_extract_2024 show ?thesis by blast
qed

text \<open>
  Claim C7, amended. For every fragment from which \<^verbatim>\<open>extract_dividend_data\<close> returns a
  record: when the flattened text contains \<^verbatim>\<open>XD:\<close>, optional whitespace, an optional dash,
  optional whitespace and a date in the dotted format, the record's \<^verbatim>\<open>XD_Date\<close> is the
  date of the first such occurrence with its dots replaced by dashes; when the text has
  no such occurrence but contains \<^verbatim>\<open>XD:\<close> followed in the same way by \<^verbatim>\<open>TBA\<close>, the
  record's \<^verbatim>\<open>XD_Date\<close> is the string \<^verbatim>\<open>TBA\<close>.
\<close>

theorem xd_date_stored:
  assumes "extract_dividend_data post = Some data"
  shows "(\<forall>pre s d. get_text post = pre @ s \<and> xd_date_at s d
             \<and> (\<forall>pre' s' d'. get_text post = pre' @ s' \<and> xd_date_at s' d' \<longrightarrow> length pre \<le> length pre')
           \<longrightarrow> map_of data ''XD_Date'' = Some (replace_char CHR ''.'' CHR ''-'' d))
       \<and> ((\<forall>pre s d. get_text post = pre @ s \<longrightarrow> \<not> xd_date_at s d)
           \<and> (\<exists>pre s. get_text post = pre @ s \<and> xd_tba_at s)
           \<longrightarrow> map_of data ''XD_Date'' = Some ''TBA'')"
proof -
  from assms have x: "map_of data ''XD_Date'' =
       (case re_search pat_xd_date (get_text post) of
          Some d \<Rightarrow> Some (replace_char CHR ''.'' CHR ''-'' d)
        | None \<Rightarrow> if re_find rx_xd_tba (get_text post) then Some ''TBA'' else None)"
    by (rule extract_fields)
  have a: "map_of data ''XD_Date'' = Some (replace_char CHR ''.'' CHR ''-'' d)"
    if "get_text post = pre @ s \<and> xd_date_at s d
             \<and> (\<forall>pre' s' d'. get_text post = pre' @ s' \<and> xd_date_at s' d' \<longrightarrow> length pre \<le> length pre')"
    for pre s d
  proof -
    from that have "re_search pat_xd_date (get_text post) = Some d"
      unfolding search_xd_date_Some by blast
    with x show ?thesis by simp
  qed
  have b: "map_of data ''XD_Date'' = Some ''TBA''"
    if "(\<forall>pre s d. get_text post = pre @ s \<longrightarrow> \<not> xd_date_at s d)
           \<and> (\<exists>pre s. get_text post = pre @ s \<and> xd_tba_at s)"
  proof -
    from that have "re_search pat_xd_date (get_text post) = None"
      unfolding search_xd_date_None by blast
    moreover from that have "re_find rx_xd_tba (get_text post)"
      unfolding re_find_xd_tba by blast
    ultimately show ?thesis using x by simp
  qed
  from a b show ?thesis by blast
qed

theorem xd_date_stored_witness:
  "extract_dividend_data ex_post_2024 = Some ex_record_2024
   \<and> (\<exists>pre s. get_text ex_post_2024 = pre @ s \<and> xd_date_at s ''20.Jun.2024'')
   \<and> map_of ex_record_2024 ''XD_Date'' = Some ''20-Jun-2024''
   \<and> extract_dividend_data ex_post_undated
       = Some [(''Post_Date'', ''08-Jun-2024''), (''Company_Code'', ''XYZ''),
               (''Company_Name'', ''Xyz PLC''), (''XD_Date'', ''TBA'')]
   \<and> (\<exists>pre s. get_text ex_post_undated = pre @ s \<and> xd_tba_at s)
   \<and> map_of [(''Post_Date'', ''08-Jun-2024''), (''Company_Code'', ''XYZ''),
              (''Company_Name'', ''Xyz PLC''), (''XD_Date'', ''TBA'')] ''XD_Date'' = Some ''TBA''
   \<and> re_search pat_xd_date (''XD: TBA, XD:'' @ [CHR 0xA0] @ ''20.Jun.2024'') = Some ''20.Jun.2024''"
proof -
  have nb: "re_search pat_xd_date (''XD: TBA, XD:'' @ [CHR 0xA0] @ ''20.Jun.2024'') = Some ''20.Jun.2024''"
    by code_simp
  note t1 = xd_date_stored [OF ex_extract_2024]
  have "re_search pat_xd_date (get_text ex_post_2024) = Some ''20.Jun.2024''" by code_simp
  then obtain pre s where h: "get_text ex_post_2024 = pre @ s" "xd_date_at s ''20.Jun.2024''"
    "\<forall>pre' s' d'. get_text ex_post_2024 = pre' @ s' \<and> xd_date_at s' d' \<longrightarrow> length pre \<le> length pre'"
    unfolding search_xd_date_Some by blast
  with t1 have "map_of ex_record_2024 ''XD_Date'' = Some (replace_char CHR ''.'' CHR ''-'' ''20.Jun.2024'')"
    by blast
  then have 1: "map_of ex_record_2024 ''XD_Date'' = Some ''20-Jun-2024''"
    by (simp add: replace_char_def)
  note t2 = xd_date_stored [OF ex_extract_undated]
  have "re_search pat_xd_date (get_text ex_post_undated) = None" by code_simp
  then have n: "\<forall>pre s d. get_text ex_post_undated = pre @ s \<longrightarrow> \<not> xd_date_at s d"
    unfolding search_xd_date_None .
  have "re_find rx_xd_tba (get_text ex_post_undated)" by code_simp
  then have e: "\<exists>pre s. get_text ex_post_undated = pre @ s \<and> xd_tba_at s"
    unfolding re_find_xd_tba .
  from t2 n e have 2: "map_of [(''Post_Date'', ''08-Jun-2024''), (''Company_Code'', ''XYZ''),
              (''Company_Name'', ''Xyz PLC''), (''XD_Date'', ''TBA'')] ''XD_Date'' = Some ''TBA''"
    by blast
  from h(1,2) have 3: "\<exists>pre s. get_text ex_post_2024 = pre @ s \<and> xd_date_at s ''20.Jun.2024''" by blast
  from ex_extract_2024 ex_extract_undated 1 2 3 e nb show ?thesis by (intro conjI)
qed

text \<open>
  Claim C7 as stated fails on a fragment that does not pass the gating steps: the text of
  this post contains \<^verbatim>\<open>XD: - 05.Jun.2024\<close>, its title has no date, and no record is
  returned.
\<close>

theorem xd_date_stored_counterexample:
  "get_text ex_post_no_title_date
     = ''Dividend - ABC'' @ [CHR 0x0A] @ ''Abc PLC'' @ [CHR 0x0A] @ ''XD: - 05.Jun.2024'' @ [CHR 0x0A]
   \<and> xd_date_at (''XD: - 05.Jun.2024'' @ [CHR 0x0A]) ''05.Jun.2024''
   \<and> extract_dividend_data ex_post_no_title_date = None"
proof -
  have 1: "get_text ex_post_no_title_date
     = ''Dividend - ABC'' @ [CHR 0x0A] @ ''Abc PLC'' @ [CHR 0x0A] @ ''XD: - 05.Jun.2024'' @ [CHR 0x0A]"
    by code_simp
  have "''05.Jun.2024'' \<in> set (re_match_at pat_xd_date (''XD: - 05.Jun.2024'' @ [CHR 0x0A]))"
    by code_simp
  then have 2: "xd_date_at (''XD: - 05.Jun.2024'' @ [CHR 0x0A]) ''05.Jun.2024''"
    unfolding in_match_xd_date .
  have 3: "extract_dividend_data ex_post_no_title_date = None" by code_simp
  from 1 2 3 show ?thesis by blast
qed

text \<open>
  Claim C8, amended. For every fragment from which \<^verbatim>\<open>extract_dividend_data\<close> returns a
  record: when the title ends with a dash, whitespace and a run of uppercase letters
  (then at most whitespace), the record's \<^verbatim>\<open>Company_Code\<close> is that run; when the title
  has no such ending, the record has no \<^verbatim>\<open>Company_Code\<close>.
\<close>

theorem company_code_stored:
  assumes "extract_dividend_data post = Some data"
  shows "\<exists>title. title_of post = Some title
           \<and> (\<forall>c. ends_with_dash_code title c \<longrightarrow> map_of data ''Company_Code'' = Some c)
           \<and> ((\<forall>c. \<not> ends_with_dash_code title c) \<longrightarrow> map_of data ''Company_Code'' = None)"
proof -
  from assms obtain title tok where h: "title_of post = Some title"
    "map_of data ''Company_Code'' = re_search pat_company_code title"
    by (rule extract_fields)
  have "\<forall>c. ends_with_dash_code title c \<longrightarrow> map_of data ''Company_Code'' = Some c"
    unfolding h(2) search_company_code_Some by blast
  moreover have "(\<forall>c. \<not> ends_with_dash_code title c) \<longrightarrow> map_of data ''Company_Code'' = None"
    unfolding h(2) search_company_code_None by blast
  ultimately show ?thesis using h(1) by blast
qed

theorem company_code_stored_witness:
  "extract_dividend_data ex_post_2024 = Some ex_record_2024
   \<and> title_of ex_post_2024 = Some ''07-Jun-2024 - ABC''
   \<and> ends_with_dash_code ''07-Jun-2024 - ABC'' ''ABC''
   \<and> map_of ex_record_2024 ''Company_Code'' = Some ''ABC''
   \<and> extract_dividend_data ex_post_no_code
       = Some [(''Post_Date'', ''09-Jun-2024''), (''Company_Name'', ''Mno PLC''), (''XD_Date'', ''05-Jul-2024'')]
   \<and> title_of ex_post_no_code = Some ''09-Jun-2024 Final dividend''
   \<and> re_search pat_company_code ''09-Jun-2024 Final dividend'' = None
   \<and> map_of [(''Post_Date'', ''09-Jun-2024''), (''Company_Name'', ''Mno PLC''), (''XD_Date'', ''05-Jul-2024'')]
        ''Company_Code'' = None
   \<and> ends_with_dash_code (''07-Jun-2024 -'' @ [CHR 0xA0] @ ''ABC'') ''ABC''"
proof -
  have "re_search pat_company_code (''07-Jun-2024 -'' @ [CHR 0xA0] @ ''ABC'') = Some ''ABC''"
    by code_simp
  then have nb: "ends_with_dash_code (''07-Jun-2024 -'' @ [CHR 0xA0] @ ''ABC'') ''ABC''"
    unfolding search_company_code_Some .
  have t: "title_of ex_post_2024 = Some ''07-Jun-2024 - ABC''" by code_simp
  have "re_search pat_company_code ''07-Jun-2024 - ABC'' = Some ''ABC''" by code_simp
  then have e: "ends_with_dash_code ''07-Jun-2024 - ABC'' ''ABC''"
    unfolding search_company_code_Some .
  from company_code_stored [OF ex_extract_2024] t e
  have 1: "map_of ex_record_2024 ''Company_Code'' = Some ''ABC''"
    by (metis option.inject)
  have t': "title_of ex_post_no_code = Some ''09-Jun-2024 Final dividend''" by code_simp
  have s: "re_search pat_company_code ''09-Jun-2024 Final dividend'' = None" by code_simp
  then have n: "\<forall>c. \<not> ends_with_dash_code ''09-Jun-2024 Final dividend'' c"
    unfolding search_company_code_None .
  from company_code_stored [OF ex_extract_no_code] t' n
  have 2: "map_of [(''Post_Date'', ''09-Jun-2024''), (''Company_Name'', ''Mno PLC''), (''XD_Date'', ''05-Jul-2024'')]
        ''Company_Code'' = None"
    by (metis option.inject)
  from ex_extract_2024 ex_extract_no_code t e 1 t' s 2 nb show ?thesis by (intro conjI)
qed

text \<open>
  Claim C8 as stated fails on a title without a date: this title ends with \<^verbatim>\<open>- ABC\<close>,
  and no record is returned.
\<close>

theorem company_code_stored_counterexample:
  "title_of ex_post_no_title_date = Some ''Dividend - ABC''
   \<and> ends_with_dash_code ''Dividend - ABC'' ''ABC''
   \<and> extract_dividend_data ex_post_no_title_date = None"
proof -
  have 1: "title_of ex_post_no_title_date = Some ''Dividend - ABC''" by code_simp
  have "re_search pat_company_code ''Dividend - ABC'' = Some ''ABC''" by code_simp
  then have 2: "ends_with_dash_code ''Dividend - ABC'' ''ABC''"
    unfolding search_company_code_Some .
  have 3: "extract_dividend_data ex_post_no_title_date = None" by code_simp
  from 1 2 3 show ?thesis by blast
qed

end
